theory Spec2Isabelle
  imports Complex_Main
begin

section \<open>Values\<close>

text \<open>
  A parsed JSON document, as \<^verbatim>\<open>json.loads\<close> hands it to the harvester.  A Python
  \<^verbatim>\<open>dict\<close> is modelled by the list of its items in iteration order (the keys of a
  dict are pairwise distinct).  Python floats are modelled by exact rationals: rounding,
  overflow, infinities and NaN are outside the model.  Characters are code points below 256.
\<close>

datatype json =
    JNull
  | JBool bool
  | JInt int
  | JFloat rat
  | JStr string
  | JArr "json list"
  | JObj "(string \<times> json) list"

datatype error = RecursionError | ValueError | ZeroDivisionError | StatisticsError

definition ebind :: "error + 'a \<Rightarrow> ('a \<Rightarrow> error + 'b) \<Rightarrow> error + 'b" where
  "ebind r f = (case r of Inl e \<Rightarrow> Inl e | Inr x \<Rightarrow> f x)"

section \<open>Reduction engine: \<^verbatim>\<open>reduce_vals\<close>\<close>

text \<open>Python's \<^verbatim>\<open>min\<close> and \<^verbatim>\<open>max\<close> of a list raise \<^verbatim>\<open>ValueError\<close> on the empty list and
  otherwise keep the first extremal element met.\<close>

fun py_min :: "rat list \<Rightarrow> error + rat" where
  "py_min [] = Inl ValueError"
| "py_min (x # xs) = Inr (foldl (\<lambda>m v. if v < m then v else m) x xs)"

fun py_max :: "rat list \<Rightarrow> error + rat" where
  "py_max [] = Inl ValueError"
| "py_max (x # xs) = Inr (foldl (\<lambda>m v. if v > m then v else m) x xs)"

text \<open>\<^verbatim>\<open>sum(arr)\<close> adds from the left, starting at 0.\<close>

definition py_sum :: "rat list \<Rightarrow> rat" where
  "py_sum arr = foldl (+) 0 arr"

text \<open>\<^verbatim>\<open>statistics.median\<close>: sort, then the middle element or the mean of the two middle ones.\<close>

definition median :: "rat list \<Rightarrow> error + rat" where
  "median data0 =
     (let data = sort data0; n = length data in
      if n = 0 then Inl StatisticsError
      else if n mod 2 = 1 then Inr (data ! (n div 2))
      else (let i = n div 2 in Inr ((data ! (i - 1) + data ! i) / 2)))"

text \<open>Line 155: the values that are not \<^verbatim>\<open>None\<close>.\<close>

definition observed :: "rat option list \<Rightarrow> rat list" where
  "observed arr = map the (filter (\<lambda>v. v \<noteq> None) arr)"

definition reduce_vals :: "rat option list \<Rightarrow> string \<Rightarrow> error + rat" where
  "reduce_vals arr0 policy =
     (let arr = observed arr0 in
      if arr = [] then Inr 0
      else if policy = ''sum'' then Inr (py_sum arr)
      else if policy = ''min-nonzero'' then
        (let pos = filter (\<lambda>v. v > 0) arr in
         if pos \<noteq> [] then py_min pos else Inr 0)
      else if policy = ''min'' then py_min arr
      else if policy = ''max'' then py_max arr
      else if policy = ''median'' then median arr
      else Inr (py_sum arr))"

section \<open>Derived metrics\<close>

text \<open>Float division raises on a zero divisor.\<close>

definition py_truediv :: "rat \<Rightarrow> rat \<Rightarrow> error + rat" where
  "py_truediv a b = (if b = 0 then Inl ZeroDivisionError else Inr (a / b))"

text \<open>\<^verbatim>\<open>round(x, 6)\<close>: to the nearest multiple of 10^-6, ties to the even one.\<close>

definition round_half_even :: "rat \<Rightarrow> int" where
  "round_half_even x =
     (let f = \<lfloor>x\<rfloor>; r = x - of_int f in
      if r < 1 / 2 then f
      else if r > 1 / 2 then f + 1
      else if even f then f else f + 1)"

definition round6 :: "rat \<Rightarrow> rat" where
  "round6 x = of_int (round_half_even (x * 1000000)) / 1000000"

record derived =
  ctr :: rat
  cpc :: rat
  cpm :: rat
  order_rate :: rat
  roas :: rat

text \<open>Lines 296-301 of \<^verbatim>\<open>main\<close>: \<^verbatim>\<open>v, c, s, o, r\<close> are the row's views, clicks, spend,
  orders (here \<open>od\<close>) and revenue; a float is falsy exactly when it is zero.\<close>

definition derived_metrics :: "rat \<Rightarrow> rat \<Rightarrow> rat \<Rightarrow> rat \<Rightarrow> rat \<Rightarrow> error + derived" where
  "derived_metrics v c s od r =
     ebind (if v \<noteq> 0 then py_truediv c v else Inr 0) (\<lambda>x1.
     ebind (if c \<noteq> 0 then py_truediv s c else Inr 0) (\<lambda>x2.
     ebind (if v \<noteq> 0 then ebind (py_truediv v 1000) (py_truediv s) else Inr 0) (\<lambda>x3.
     ebind (if c \<noteq> 0 then py_truediv od c else Inr 0) (\<lambda>x4.
     ebind (if s \<noteq> 0 then py_truediv r s else Inr 0) (\<lambda>x5.
       Inr \<lparr>ctr = round6 x1, cpc = round6 x2, cpm = round6 x3,
            order_rate = round6 x4, roas = round6 x5\<rparr>)))))"

section \<open>Characters and strings\<close>

definition is_digit :: "char \<Rightarrow> bool" where
  "is_digit c = (48 \<le> (of_char c :: nat) \<and> (of_char c :: nat) \<le> 57)"

definition digit_val :: "char \<Rightarrow> int" where
  "digit_val c = int (of_char c) - 48"

text \<open>\<^verbatim>\<open>str.isspace\<close>, which is also the class \<^verbatim>\<open>\s\<close> of \<^verbatim>\<open>re\<close>, on code points below 256.\<close>

definition is_space :: "char \<Rightarrow> bool" where
  "is_space c = (let n = (of_char c :: nat) in
     (9 \<le> n \<and> n \<le> 13) \<or> (28 \<le> n \<and> n \<le> 32) \<or> n = 133 \<or> n = 160)"

text \<open>\<^verbatim>\<open>str.lower\<close> on code points below 256: A-Z and the accented capitals move up by 32.\<close>

definition lower_char :: "char \<Rightarrow> char" where
  "lower_char c = (let n = (of_char c :: int) in
     if (65 \<le> n \<and> n \<le> 90) \<or> (192 \<le> n \<and> n \<le> 222 \<and> n \<noteq> 215)
     then char_of (n + 32) else c)"

definition lower :: "string \<Rightarrow> string" where
  "lower s = map lower_char s"

definition strip :: "string \<Rightarrow> string" where
  "strip s = rev (dropWhile is_space (rev (dropWhile is_space s)))"

definition endswith :: "string \<Rightarrow> string \<Rightarrow> bool" where
  "endswith s suf = (length suf \<le> length s \<and> drop (length s - length suf) s = suf)"

text \<open>\<^verbatim>\<open>int(text)\<close> on the texts the date parser converts: surrounding white space is
  dropped and what is left must be decimal digits; anything else raises (\<open>None\<close>).\<close>

definition digits_val :: "string \<Rightarrow> int" where
  "digits_val ds = foldl (\<lambda>a c. 10 * a + digit_val c) 0 ds"

definition py_int :: "string \<Rightarrow> int option" where
  "py_int t = (let u = strip t in
     if u \<noteq> [] \<and> list_all is_digit u then Some (digits_val u) else None)"

section \<open>The proleptic Gregorian calendar of \<^verbatim>\<open>datetime\<close>\<close>

definition MAXORDINAL :: int where
  "MAXORDINAL = 3652059"

definition is_leap :: "int \<Rightarrow> bool" where
  "is_leap y = (y mod 4 = 0 \<and> (y mod 100 \<noteq> 0 \<or> y mod 400 = 0))"

definition DAYS_IN_MONTH :: "int list" where
  "DAYS_IN_MONTH = [0, 31, 28, 31, 30, 31, 30, 31, 31, 30, 31, 30, 31]"

definition DAYS_BEFORE_MONTH :: "int list" where
  "DAYS_BEFORE_MONTH = [0, 0, 31, 59, 90, 120, 151, 181, 212, 243, 273, 304, 334]"

definition days_in_month :: "int \<Rightarrow> int \<Rightarrow> int" where
  "days_in_month y m = (if m = 2 \<and> is_leap y then 29 else DAYS_IN_MONTH ! nat m)"

definition days_before_year :: "int \<Rightarrow> int" where
  "days_before_year year = (let y = year - 1 in y * 365 + y div 4 - y div 100 + y div 400)"

definition days_before_month :: "int \<Rightarrow> int \<Rightarrow> int" where
  "days_before_month y m = DAYS_BEFORE_MONTH ! nat m + (if m > 2 \<and> is_leap y then 1 else 0)"

definition ymd2ord :: "int \<Rightarrow> int \<Rightarrow> int \<Rightarrow> int" where
  "ymd2ord y m d = days_before_year y + days_before_month y m + d"

definition ord2ymd :: "int \<Rightarrow> int \<times> int \<times> int" where
  "ord2ymd n0 =
     (let n = n0 - 1;
          n400 = n div 146097; n = n mod 146097;
          n100 = n div 36524; n = n mod 36524;
          n4 = n div 1461; n = n mod 1461;
          n1 = n div 365; n = n mod 365;
          year = n400 * 400 + 1 + n100 * 100 + n4 * 4 + n1
      in if n1 = 4 \<or> n100 = 4 then (year - 1, 12, 31)
         else (let leapyear = (n1 = 3 \<and> (n4 \<noteq> 24 \<or> n100 = 3));
                   month = (n + 50) div 32;
                   preceding = DAYS_BEFORE_MONTH ! nat month + (if month > 2 \<and> leapyear then 1 else 0)
               in if preceding > n
                  then (let month' = month - 1;
                            preceding' = preceding - (DAYS_IN_MONTH ! nat month'
                                           + (if month' = 2 \<and> leapyear then 1 else 0))
                        in (year, month', n - preceding' + 1))
                  else (year, month, n - preceding + 1)))"

text \<open>The constructor check of \<^verbatim>\<open>date(year, month, day)\<close>.\<close>

definition valid_date :: "int \<Rightarrow> int \<Rightarrow> int \<Rightarrow> bool" where
  "valid_date y m d = (1 \<le> y \<and> y \<le> 9999 \<and> 1 \<le> m \<and> m \<le> 12 \<and> 1 \<le> d \<and> d \<le> days_in_month y m)"

text \<open>\<^verbatim>\<open>date.isoformat\<close>: \<^verbatim>\<open>"%04d-%02d-%02d"\<close>.\<close>

definition digit_char :: "int \<Rightarrow> char" where
  "digit_char d = ''0123456789'' ! nat d"

definition pad2 :: "int \<Rightarrow> string" where
  "pad2 n = [digit_char (n div 10 mod 10), digit_char (n mod 10)]"

definition pad4 :: "int \<Rightarrow> string" where
  "pad4 n = [digit_char (n div 1000 mod 10), digit_char (n div 100 mod 10),
             digit_char (n div 10 mod 10), digit_char (n mod 10)]"

definition isoformat :: "int \<times> int \<times> int \<Rightarrow> string" where
  "isoformat ymd = (case ymd of (y, m, d) \<Rightarrow> pad4 y @ ''-'' @ pad2 m @ ''-'' @ pad2 d)"

record pydatetime =
  year :: int
  month :: int
  day :: int
  hour :: int
  minute :: int
  second :: int
  microsecond :: int
  utcoffset :: "int option"

text \<open>\<^verbatim>\<open>datetime.__add__\<close> with \<^verbatim>\<open>timedelta(hours=h)\<close>, followed by \<^verbatim>\<open>.date()\<close>: the day
  count moves by the whole days that the clock time plus the offset spans; a result outside
  years 1 to 9999 raises \<^verbatim>\<open>OverflowError\<close> (\<open>None\<close>).\<close>

definition shifted_ordinal :: "pydatetime \<Rightarrow> int \<Rightarrow> int" where
  "shifted_ordinal dt h =
     (let secs = hour dt * 3600 + minute dt * 60 + second dt + h * 3600
      in ymd2ord (year dt) (month dt) (day dt) + secs div 86400)"

definition add_hours_date :: "pydatetime \<Rightarrow> int \<Rightarrow> (int \<times> int \<times> int) option" where
  "add_hours_date dt h =
     (let days = shifted_ordinal dt h
      in if 0 < days \<and> days \<le> MAXORDINAL then Some (ord2ymd days) else None)"

text \<open>\<^verbatim>\<open>datetime.fromtimestamp(ts, tz=timezone.utc)\<close> for an integer \<open>ts\<close>; an instant
  outside years 1 to 9999 raises (\<open>None\<close>).\<close>

definition fromtimestamp :: "int \<Rightarrow> pydatetime option" where
  "fromtimestamp ts =
     (let days = 719163 + ts div 86400; secs = ts mod 86400 in
      if 0 < days \<and> days \<le> MAXORDINAL then
        (case ord2ymd days of (y, m, d) \<Rightarrow>
           Some \<lparr>year = y, month = m, day = d, hour = secs div 3600,
                 minute = secs mod 3600 div 60, second = secs mod 60,
                 microsecond = 0, utcoffset = Some 0\<rparr>)
      else None)"

section \<open>\<^verbatim>\<open>datetime.strptime\<close>\<close>

text \<open>
  \<^verbatim>\<open>strptime\<close> turns the format into a regular expression, matches it at the start of
  the text with the backtracking matcher of \<^verbatim>\<open>re\<close>, rejects a match that leaves text
  over, converts the groups and builds the \<^verbatim>\<open>datetime\<close>.  The matcher below returns,
  for an expression and a text, the remainders after every way of matching, in the order in
  which backtracking tries them; the first one is the match \<^verbatim>\<open>re\<close> reports.
\<close>

datatype rx =
    Sym "char \<Rightarrow> bool"
  | Eps
  | Seq rx rx
  | Alt rx rx
  | Opt rx
  | Plus "char \<Rightarrow> bool"

fun rmatch :: "rx \<Rightarrow> string \<Rightarrow> string list" where
  "rmatch (Sym P) s = (case s of [] \<Rightarrow> [] | c # cs \<Rightarrow> if P c then [cs] else [])"
| "rmatch Eps s = [s]"
| "rmatch (Seq a b) s = concat (map (rmatch b) (rmatch a s))"
| "rmatch (Alt a b) s = rmatch a s @ rmatch b s"
| "rmatch (Opt a) s = rmatch a s @ [s]"
| "rmatch (Plus P) s = map (\<lambda>k. drop k s) (rev [1 ..< Suc (length (takeWhile P s))])"

definition seqs :: "rx list \<Rightarrow> rx" where
  "seqs rs = foldr Seq rs Eps"

definition ch :: "char \<Rightarrow> rx" where
  "ch c = Sym (\<lambda>x. x = c)"

definition ich :: "char \<Rightarrow> rx" where
  \<comment> \<open>a character of the format, matched under \<^verbatim>\<open>IGNORECASE\<close>\<close>
  "ich c = Sym (\<lambda>x. lower_char x = lower_char c)"

definition dg :: rx where
  "dg = Sym is_digit"

definition rng :: "int \<Rightarrow> int \<Rightarrow> rx" where
  "rng a b = Sym (\<lambda>c. is_digit c \<and> a \<le> digit_val c \<and> digit_val c \<le> b)"

definition dg1to6 :: rx where
  "dg1to6 = Seq dg (Opt (Seq dg (Opt (Seq dg (Opt (Seq dg (Opt (Seq dg (Opt dg)))))))))"

text \<open>The expressions of the directives, from \<^verbatim>\<open>_strptime.TimeRE\<close> (as in CPython 3.11).\<close>

definition rx_Y :: rx where
  "rx_Y = seqs [dg, dg, dg, dg]"

definition rx_m :: rx where
  "rx_m = Alt (Seq (ch CHR ''1'') (rng 0 2)) (Alt (Seq (ch CHR ''0'') (rng 1 9)) (rng 1 9))"

definition rx_d :: rx where
  "rx_d = Alt (Seq (ch CHR ''3'') (rng 0 1)) (Alt (Seq (rng 1 2) dg)
            (Alt (Seq (ch CHR ''0'') (rng 1 9)) (Alt (rng 1 9) (Seq (ch CHR '' '') (rng 1 9)))))"

definition rx_H :: rx where
  "rx_H = Alt (Seq (ch CHR ''2'') (rng 0 3)) (Alt (Seq (rng 0 1) dg) dg)"

definition rx_M :: rx where
  "rx_M = Alt (Seq (rng 0 5) dg) dg"

definition rx_S :: rx where
  "rx_S = Alt (Seq (ch CHR ''6'') (rng 0 1)) (Alt (Seq (rng 0 5) dg) dg)"

definition rx_f :: rx where
  "rx_f = dg1to6"

definition rx_z :: rx where
  "rx_z = Alt (seqs [Alt (ch CHR ''+'') (ch CHR ''-''), dg, dg, Opt (ch CHR '':''), rng 0 5, dg,
                     Opt (seqs [Opt (ch CHR '':''), rng 0 5, dg,
                                Opt (seqs [ch CHR ''.'', dg1to6])])])
              (ch CHR ''Z'')"

definition directive :: "char \<Rightarrow> rx option" where
  "directive c =
     (if c = CHR ''Y'' then Some rx_Y else if c = CHR ''m'' then Some rx_m
      else if c = CHR ''d'' then Some rx_d else if c = CHR ''H'' then Some rx_H
      else if c = CHR ''M'' then Some rx_M else if c = CHR ''S'' then Some rx_S
      else if c = CHR ''f'' then Some rx_f else if c = CHR ''z'' then Some rx_z
      else None)"

text \<open>
  \<^verbatim>\<open>TimeRE.pattern\<close>: a directive becomes its named group, a run of white space becomes
  \<^verbatim>\<open>\s+\<close>, any other character stands for itself.  An item is the group's name (or
  \<open>None\<close> for literal text) with its expression.  Only the directives that the harvester's
  formats use are modelled; any other directive is an error (\<open>None\<close>).
\<close>

fun pattern :: "string \<Rightarrow> (char option \<times> rx) list option" where
  "pattern [] = Some []"
| "pattern (c # cs) =
     (if c = CHR ''%'' then
        (case cs of [] \<Rightarrow> None
         | k # rest \<Rightarrow>
            (case directive k of None \<Rightarrow> None
             | Some r \<Rightarrow> map_option ((#) (Some k, r)) (pattern rest)))
      else if is_space c then
        (case cs of
           [] \<Rightarrow> Some [(None, Plus is_space)]
         | c' # _ \<Rightarrow> if is_space c' then pattern cs
                     else map_option ((#) (None, Plus is_space)) (pattern cs))
      else map_option ((#) (None, ich c)) (pattern cs))"

text \<open>Matching the items in sequence, remembering the text each one consumed.\<close>

fun match_items :: "(char option \<times> rx) list \<Rightarrow> string \<Rightarrow> ((char option \<times> string) list \<times> string) list" where
  "match_items [] s = [([], s)]"
| "match_items (it # its) s =
     concat (map (\<lambda>rest.
        map (\<lambda>(caps, r). ((fst it, take (length s - length rest) s) # caps, r))
            (match_items its rest))
        (rmatch (snd it) s))"

text \<open>The conversion of the \<^verbatim>\<open>%z\<close> group to an offset in microseconds.\<close>

definition z_offset :: "string \<Rightarrow> int option" where
  "z_offset z0 =
     (if z0 = ''Z'' then Some 0
      else
        (let z1 = (if z0 ! 3 = CHR '':'' then take 3 z0 @ drop 4 z0 else z0);
             bad = (z0 ! 3 = CHR '':'' \<and> length z1 > 5 \<and> z1 ! 5 \<noteq> CHR '':'');
             z = (if z0 ! 3 = CHR '':'' \<and> length z1 > 5 then take 5 z1 @ drop 6 z1 else z1);
             sec_txt = take 2 (drop 5 z);
             frac_txt = drop 8 z
         in if bad then None
            else
              (case (py_int (take 2 (drop 1 z)), py_int (take 2 (drop 3 z)),
                     (if sec_txt = [] then Some 0 else py_int sec_txt),
                     py_int (frac_txt @ replicate (6 - length frac_txt) CHR ''0'')) of
                 (Some hours, Some minutes, Some seconds, Some fraction) \<Rightarrow>
                   (let gmtoff = hours * 3600 + minutes * 60 + seconds in
                    if take 1 z = ''-'' then Some (- (gmtoff * 1000000 + fraction))
                    else Some (gmtoff * 1000000 + fraction))
               | _ \<Rightarrow> None)))"

definition group_int :: "(char option \<times> string) list \<Rightarrow> char \<Rightarrow> int \<Rightarrow> int option" where
  \<comment> \<open>\<^verbatim>\<open>int(found_dict[k])\<close>, or the default when the format has no such directive\<close>
  "group_int caps k dflt = (case map_of caps (Some k) of None \<Rightarrow> Some dflt | Some t \<Rightarrow> py_int t)"

definition convert :: "(char option \<times> string) list \<Rightarrow> pydatetime option" where
  "convert caps =
     (case (group_int caps CHR ''Y'' 1900, group_int caps CHR ''m'' 1, group_int caps CHR ''d'' 1,
            group_int caps CHR ''H'' 0, group_int caps CHR ''M'' 0, group_int caps CHR ''S'' 0) of
        (Some y, Some m, Some d, Some hh, Some mm, Some ss) \<Rightarrow>
          (case (case map_of caps (Some CHR ''f'') of None \<Rightarrow> Some 0
                 | Some t \<Rightarrow> py_int (t @ replicate (6 - length t) CHR ''0'')) of
             None \<Rightarrow> None
           | Some us \<Rightarrow>
              (case (case map_of caps (Some CHR ''z'') of None \<Rightarrow> Some None
                     | Some t \<Rightarrow> map_option Some (z_offset t)) of
                 None \<Rightarrow> None
               | Some off \<Rightarrow>
                  if valid_date y m d \<and> 0 \<le> hh \<and> hh \<le> 23 \<and> 0 \<le> mm \<and> mm \<le> 59
                     \<and> 0 \<le> ss \<and> ss \<le> 59
                     \<and> (case off of None \<Rightarrow> True
                         | Some t \<Rightarrow> - 86400000000 < t \<and> t < 86400000000)
                  then Some \<lparr>year = y, month = m, day = d, hour = hh, minute = mm, second = ss,
                             microsecond = us, utcoffset = off\<rparr>
                  else None))
      | _ \<Rightarrow> None)"

text \<open>\<^verbatim>\<open>datetime.strptime(s, fmt)\<close>; \<open>None\<close> stands for the \<^verbatim>\<open>ValueError\<close> it raises.\<close>

definition strptime :: "string \<Rightarrow> string \<Rightarrow> pydatetime option" where
  "strptime s fmt =
     (case pattern fmt of None \<Rightarrow> None
      | Some items \<Rightarrow>
         (case match_items items s of [] \<Rightarrow> None
          | (caps, rest) # _ \<Rightarrow> if rest \<noteq> [] then None else convert caps))"

section \<open>Date normalizer: \<^verbatim>\<open>norm_date\<close>\<close>

definition DATETIME_FORMATS :: "string list" where
  "DATETIME_FORMATS = [''%Y-%m-%dT%H:%M:%S%z'', ''%Y-%m-%dT%H:%M:%S.%fZ'',
                       ''%Y-%m-%dT%H:%M:%SZ'', ''%Y-%m-%d %H:%M:%S'']"

definition DATE_FORMATS :: "string list" where
  "DATE_FORMATS = [''%Y-%m-%d'', ''%m/%d/%Y'']"

text \<open>The first loop over formats: parse, add the offset, take the date; any exception of
  either step moves on to the next format.\<close>

fun try_datetime :: "int \<Rightarrow> string \<Rightarrow> string list \<Rightarrow> string option" where
  "try_datetime tz s [] = None"
| "try_datetime tz s (fmt # fmts) =
     (case strptime s fmt of
        None \<Rightarrow> try_datetime tz s fmts
      | Some dtp \<Rightarrow>
         (case add_hours_date dtp tz of
            None \<Rightarrow> try_datetime tz s fmts
          | Some d \<Rightarrow> Some (isoformat d)))"

text \<open>The second loop: pure dates, no offset.\<close>

fun try_date :: "string \<Rightarrow> string list \<Rightarrow> string option" where
  "try_date s [] = None"
| "try_date s (fmt # fmts) =
     (case strptime s fmt of
        None \<Rightarrow> try_date s fmts
      | Some dtp \<Rightarrow> Some (isoformat (year dtp, month dtp, day dtp)))"

text \<open>\<^verbatim>\<open>re.search(r"(20\d{2}-\d{2}-\d{2})", s)\<close>: the leftmost place where the shape starts.\<close>

definition rx_iso :: rx where
  "rx_iso = seqs [ch CHR ''2'', ch CHR ''0'', dg, dg, ch CHR ''-'', dg, dg, ch CHR ''-'', dg, dg]"

fun re_search_iso :: "string \<Rightarrow> string option" where
  "re_search_iso [] = None"
| "re_search_iso (c # cs) =
     (if rmatch rx_iso (c # cs) \<noteq> [] then Some (take 10 (c # cs)) else re_search_iso cs)"

text \<open>\<^verbatim>\<open>int(v)\<close> of a float truncates towards zero.\<close>

definition py_trunc :: "rat \<Rightarrow> int" where
  "py_trunc x = (if x \<ge> 0 then \<lfloor>x\<rfloor> else \<lceil>x\<rceil>)"

definition epoch_date :: "int \<Rightarrow> int \<Rightarrow> string option" where
  "epoch_date tz ts0 =
     (let ts = (if ts0 > 1000000000000 then ts0 div 1000 else ts0) in
      case fromtimestamp ts of
        None \<Rightarrow> None
      | Some dt_utc \<Rightarrow>
         (case add_hours_date dt_utc tz of
            None \<Rightarrow> None
          | Some d \<Rightarrow> Some (isoformat d)))"

text \<open>The first argument is the global \<^verbatim>\<open>TZ_OFFSET\<close>.  A Python \<^verbatim>\<open>bool\<close> is an \<^verbatim>\<open>int\<close>.\<close>

fun norm_date :: "int \<Rightarrow> json \<Rightarrow> string option" where
  "norm_date tz JNull = None"
| "norm_date tz (JBool b) = epoch_date tz (if b then 1 else 0)"
| "norm_date tz (JInt n) = epoch_date tz n"
| "norm_date tz (JFloat x) = epoch_date tz (py_trunc x)"
| "norm_date tz (JStr v) =
     (let s = strip v in
      case try_datetime tz s DATETIME_FORMATS of
        Some r \<Rightarrow> Some r
      | None \<Rightarrow>
         (case try_date s DATE_FORMATS of
            Some r \<Rightarrow> Some r
          | None \<Rightarrow> re_search_iso s))"
| "norm_date tz (JArr xs) = None"
| "norm_date tz (JObj kvs) = None"

section \<open>Numeric coercion: \<^verbatim>\<open>coerce_number\<close>\<close>

text \<open>
  \<^verbatim>\<open>float(s)\<close> on a string: white space around the text is dropped, an underscore may
  stand between two digits, and what is left is a decimal literal with optional sign,
  fraction and exponent.  The spellings of infinities and NaN denote values that the number
  model does not have; they are not recognised here.
\<close>

definition underscores_ok :: "string \<Rightarrow> bool" where
  "underscores_ok s =
     (\<forall>i < length s. s ! i = CHR ''_'' \<longrightarrow>
        0 < i \<and> is_digit (s ! (i - 1)) \<and> i + 1 < length s \<and> is_digit (s ! (i + 1)))"

definition split_sign :: "string \<Rightarrow> bool \<times> string" where
  "split_sign s = (case s of [] \<Rightarrow> (False, [])
     | c # cs \<Rightarrow> if c = CHR ''-'' then (True, cs) else if c = CHR ''+'' then (False, cs)
                else (False, c # cs))"

definition pow10 :: "int \<Rightarrow> rat" where
  "pow10 k = (if k \<ge> 0 then 10 ^ nat k else 1 / 10 ^ nat (- k))"

definition parse_decimal :: "string \<Rightarrow> rat option" where
  "parse_decimal s =
     (case split_sign s of (neg, s1) \<Rightarrow>
       (let ip = takeWhile is_digit s1; s2 = dropWhile is_digit s1;
            dot = (s2 \<noteq> [] \<and> hd s2 = CHR ''.'');
            fp = (if dot then takeWhile is_digit (tl s2) else []);
            s3 = (if dot then dropWhile is_digit (tl s2) else s2);
            mant = of_int (digits_val (ip @ fp)) * (if neg then - 1 else 1)
        in if ip = [] \<and> fp = [] then None
           else if s3 = [] then Some (mant * pow10 (- int (length fp)))
           else if hd s3 = CHR ''e'' \<or> hd s3 = CHR ''E'' then
             (case split_sign (tl s3) of (eneg, s4) \<Rightarrow>
                if s4 \<noteq> [] \<and> list_all is_digit s4
                then Some (mant * pow10 ((if eneg then - digits_val s4 else digits_val s4)
                                          - int (length fp)))
                else None)
           else None))"

definition py_float :: "string \<Rightarrow> rat option" where
  "py_float s0 = (let s = strip s0 in
     if underscores_ok s then parse_decimal (filter (\<lambda>c. c \<noteq> CHR ''_'') s) else None)"

fun coerce_number :: "json \<Rightarrow> rat option" where
  "coerce_number JNull = None"
| "coerce_number (JBool b) = Some (if b then 1 else 0)"
| "coerce_number (JInt n) = Some (of_int n)"
| "coerce_number (JFloat x) = Some x"
| "coerce_number (JStr v) = py_float (filter (\<lambda>c. c \<noteq> CHR '','') (strip v))"
| "coerce_number (JArr xs) = None"
| "coerce_number (JObj kvs) = None"

section \<open>Key tables and the payload classifier\<close>

definition REMAP :: "(string \<times> string) list" where
  "REMAP = [
     (''impressions'', ''views''), (''ad_impressions'', ''views''),
     (''attributed_impressions'', ''views''), (''impressioncount'', ''views''),
     (''impression_count'', ''views''),
     (''clicks'', ''clicks''), (''click_throughs'', ''clicks''),
     (''attributed_clicks'', ''clicks''), (''charged_clicks'', ''clicks''),
     (''clickcount'', ''clicks''), (''click_count'', ''clicks''),
     (''orders'', ''orders''), (''purchases'', ''orders''), (''purchasecount'', ''orders''),
     (''ordercount'', ''orders''), (''conversions'', ''orders''),
     (''attributed_orders'', ''orders''),
     (''revenue'', ''revenue''), (''sales'', ''revenue''), (''attributed_sales'', ''revenue''),
     (''sales_cents'', ''revenue''), (''revenue_cents'', ''revenue''),
     (''spend'', ''spend''), (''spend_cents'', ''spend''), (''cost_cents'', ''spend''),
     (''spend_micros'', ''spend''), (''cost_micros'', ''spend''), (''spenttotal'', ''spend''),
     (''spendtotal'', ''spend''), (''spend_total'', ''spend''), (''costtotal'', ''spend'')]"

definition CENTS_LIKE :: "string list" where
  "CENTS_LIKE = [''spenttotal'', ''spendtotal'', ''spend_total'', ''costtotal'']"

definition DATE_KEYS :: "string list" where
  "DATE_KEYS = [''date'', ''day'', ''timestamp'']"

definition SKIP_KEYS :: "string list" where
  "SKIP_KEYS = [''id'', ''listing_id'', ''campaign_id'', ''ad_group_id'', ''shop_id'',
                ''country'', ''currency'', ''__typename'']"

definition RANGE_HINT_KEYS :: "string list" where
  "RANGE_HINT_KEYS = [''startdate'', ''enddate'', ''start_date'', ''end_date'', ''from'', ''to'',
                      ''date_range'', ''range'', ''period'', ''total'', ''totals'', ''sum'']"

definition DAY_CONTAINER_KEYS :: "string list" where
  \<comment> \<open>the tuple of line 94\<close>
  "DAY_CONTAINER_KEYS = [''days'', ''daily'', ''by_day'', ''series'', ''data'', ''datapoints'']"

definition lower_keys :: "(string \<times> json) list \<Rightarrow> string set" where
  "lower_keys d = set (map (\<lambda>kv. lower (fst kv)) d)"

definition looks_like_range_total :: "(string \<times> json) list \<Rightarrow> bool" where
  "looks_like_range_total d =
     (let l = lower_keys d in
      if l \<inter> set RANGE_HINT_KEYS = {} then False
      else if (\<exists>k \<in> set DAY_CONTAINER_KEYS. k \<in> l) then False
      else True)"

section \<open>Tree walker: \<^verbatim>\<open>iter_dicts\<close>\<close>

text \<open>The sequence of dicts the generator yields when the interpreter's stack suffices; a
  dict is given by its items.\<close>

fun iter_dicts :: "json \<Rightarrow> (string \<times> json) list list" where
  "iter_dicts (JObj kvs) = kvs # concat (map (\<lambda>kv. iter_dicts (snd kv)) kvs)"
| "iter_dicts (JArr xs) = concat (map iter_dicts xs)"
| "iter_dicts JNull = []"
| "iter_dicts (JBool b) = []"
| "iter_dicts (JInt n) = []"
| "iter_dicts (JFloat x) = []"
| "iter_dicts (JStr v) = []"

text \<open>
  The same generator with a bound on the number of nested generator frames that the
  interpreter allows (what is left of the recursion limit when \<^verbatim>\<open>main\<close> starts the walk).
  Every call of \<^verbatim>\<open>iter_dicts\<close>, also on a scalar, runs in a frame of its own; entering a
  frame beyond the bound raises \<^verbatim>\<open>RecursionError\<close>.  The result is the dicts yielded
  before that, and whether the error was raised.
\<close>

fun iter_dicts_lim :: "nat \<Rightarrow> json \<Rightarrow> (string \<times> json) list list \<times> bool"
  and iter_list_lim :: "nat \<Rightarrow> json list \<Rightarrow> (string \<times> json) list list \<times> bool" where
  "iter_dicts_lim 0 obj = ([], True)"
| "iter_dicts_lim (Suc n) (JObj kvs) =
     (case iter_list_lim n (map snd kvs) of (ds, raised) \<Rightarrow> (kvs # ds, raised))"
| "iter_dicts_lim (Suc n) (JArr xs) = iter_list_lim n xs"
| "iter_dicts_lim (Suc n) JNull = ([], False)"
| "iter_dicts_lim (Suc n) (JBool b) = ([], False)"
| "iter_dicts_lim (Suc n) (JInt i) = ([], False)"
| "iter_dicts_lim (Suc n) (JFloat x) = ([], False)"
| "iter_dicts_lim (Suc n) (JStr v) = ([], False)"
| "iter_list_lim n [] = ([], False)"
| "iter_list_lim n (x # xs) =
     (case iter_dicts_lim n x of
        (ds, True) \<Rightarrow> (ds, True)
      | (ds, False) \<Rightarrow> (case iter_list_lim n xs of (ds', raised) \<Rightarrow> (ds @ ds', raised)))"

text \<open>The number of nested frames a walk of the value needs.\<close>

fun depth :: "json \<Rightarrow> nat" where
  "depth (JObj kvs) = Suc (foldr max (map (\<lambda>kv. depth (snd kv)) kvs) 0)"
| "depth (JArr xs) = Suc (foldr max (map depth xs) 0)"
| "depth JNull = 1"
| "depth (JBool b) = 1"
| "depth (JInt n) = 1"
| "depth (JFloat x) = 1"
| "depth (JStr v) = 1"

section \<open>The accumulation loop of \<^verbatim>\<open>main\<close>\<close>

record options =
  skip_range_totals :: bool
  keep_raw :: bool
  tz_offset :: int
  aggregate_policy :: string
  derived_flag :: bool

text \<open>\<^verbatim>\<open>values_by_date\<close>: date, then metric, then the list of values in arrival order.  A
  missing key of either \<^verbatim>\<open>defaultdict\<close> is created by the first append below it.\<close>

type_synonym accumulator = "string \<rightharpoonup> (string \<rightharpoonup> rat list)"

definition append_value :: "accumulator \<Rightarrow> string \<Rightarrow> string \<Rightarrow> rat \<Rightarrow> accumulator" where
  "append_value acc date metric num =
     (let metrics = (case acc date of None \<Rightarrow> Map.empty | Some m \<Rightarrow> m);
          vals = (case metrics metric of None \<Rightarrow> [] | Some l \<Rightarrow> l)
      in acc(date \<mapsto> metrics(metric \<mapsto> vals @ [num])))"

text \<open>Lines 221-223: the value of the first key, in iteration order, that is a date key;
  \<^verbatim>\<open>None\<close> (here \<open>JNull\<close>) when there is none.\<close>

fun find_date_val :: "(string \<times> json) list \<Rightarrow> json" where
  "find_date_val [] = JNull"
| "find_date_val (kv # rest) =
     (if lower (fst kv) \<in> set DATE_KEYS then snd kv else find_date_val rest)"

text \<open>Lines 241-244: a bare spend or revenue field gives way to a scaled sibling.\<close>

definition superseded :: "string set \<Rightarrow> string \<Rightarrow> bool" where
  "superseded keyset kl =
     ((kl = ''spend'' \<or> kl = ''revenue'') \<and>
      ((\<exists>s \<in> set [kl @ ''_cents'', kl @ ''_micros'']. s \<in> keyset) \<or>
       (kl = ''spend'' \<and> (\<exists>s \<in> set CENTS_LIKE. s \<in> keyset))))"

text \<open>Lines 248-255: the rescaled number and the base name.\<close>

definition scale :: "string \<Rightarrow> rat \<Rightarrow> rat \<times> string" where
  "scale kl num =
     (if endswith kl ''_cents'' then (num / 100, take (length kl - 6) kl)
      else if endswith kl ''_micros'' then (num / 1000000, take (length kl - 7) kl)
      else (if kl \<in> set CENTS_LIKE then num / 100 else num, kl))"

text \<open>\<^verbatim>\<open>REMAP.get(base, base)\<close>.\<close>

definition remap :: "string \<Rightarrow> string" where
  "remap base = (case map_of REMAP base of None \<Rightarrow> base | Some t \<Rightarrow> t)"

text \<open>The body of the loop over the items of a record (lines 231-260).  The counters
  \<^verbatim>\<open>key_freq\<close> and \<^verbatim>\<open>raw_cols\<close> are never read again and are left out.\<close>

definition add_field :: "bool \<Rightarrow> string \<Rightarrow> string set \<Rightarrow> accumulator \<Rightarrow> string \<times> json \<Rightarrow> accumulator" where
  "add_field keep date_iso keyset acc kv =
     (let kl = lower (fst kv) in
      if kl \<in> set DATE_KEYS \<or> kl \<in> set SKIP_KEYS then acc
      else
        (case coerce_number (snd kv) of
           None \<Rightarrow> acc
         | Some num \<Rightarrow>
            if superseded keyset kl then acc
            else
              (case scale kl num of (num', base) \<Rightarrow>
                (let std = remap base;
                     acc1 = append_value acc date_iso std num'
                 in if keep \<and> base \<noteq> std then append_value acc1 date_iso base num' else acc1))))"

text \<open>Lines 219-260: date resolution, then the loop over the items.  The first argument
  is \<^verbatim>\<open>TZ_OFFSET\<close>, the second \<^verbatim>\<open>args.keep_raw\<close>.\<close>

definition accumulate_record :: "int \<Rightarrow> bool \<Rightarrow> accumulator \<Rightarrow> (string \<times> json) list \<Rightarrow> accumulator" where
  "accumulate_record tz keep acc d =
     (case norm_date tz (find_date_val d) of
        None \<Rightarrow> acc
      | Some date_iso \<Rightarrow>
         if date_iso = [] then acc
         else foldl (add_field keep date_iso (lower_keys d)) acc d)"

text \<open>The body of the loop over the records of a document (lines 216-260).\<close>

definition handle_record :: "options \<Rightarrow> accumulator \<Rightarrow> (string \<times> json) list \<Rightarrow> accumulator" where
  "handle_record opts acc d =
     (if skip_range_totals opts \<and> looks_like_range_total d then acc
      else accumulate_record (tz_offset opts) (keep_raw opts) acc d)"

text \<open>\<^verbatim>\<open>values_by_date[d].get(k, [])\<close>, also for a date that is not there.\<close>

definition acc_get :: "accumulator \<Rightarrow> string \<Rightarrow> string \<Rightarrow> rat list" where
  "acc_get acc date metric =
     (case acc date of None \<Rightarrow> []
      | Some m \<Rightarrow> (case m metric of None \<Rightarrow> [] | Some l \<Rightarrow> l))"

text \<open>
  Line 215 for one parsed document: the records are handled as the generator yields them; a
  \<^verbatim>\<open>RecursionError\<close> of the generator is raised inside the \<^verbatim>\<open>for\<close> statement, which no
  \<^verbatim>\<open>try\<close> encloses, so it leaves \<^verbatim>\<open>main\<close>.
\<close>

definition harvest_doc :: "options \<Rightarrow> nat \<Rightarrow> accumulator \<Rightarrow> json \<Rightarrow> error + accumulator" where
  "harvest_doc opts limit acc data =
     (case iter_dicts_lim limit data of
        (ds, raised) \<Rightarrow>
          (let acc' = foldl (handle_record opts) acc ds in
           if raised then Inl RecursionError else Inr acc'))"

text \<open>
  The loop over the files (lines 202-260).  A file is \<open>None\<close> when lines 203-212 skip it
  (it cannot be read, is empty, does not start with a brace or bracket, or \<^verbatim>\<open>json.loads\<close>
  raises), and otherwise the parsed document.
\<close>

fun harvest_files :: "options \<Rightarrow> nat \<Rightarrow> accumulator \<Rightarrow> json option list \<Rightarrow> error + accumulator" where
  "harvest_files opts limit acc [] = Inr acc"
| "harvest_files opts limit acc (None # fs) = harvest_files opts limit acc fs"
| "harvest_files opts limit acc (Some data # fs) =
     (case harvest_doc opts limit acc data of
        Inl e \<Rightarrow> Inl e
      | Inr acc' \<Rightarrow> harvest_files opts limit acc' fs)"

section \<open>Rows\<close>

definition standard_order :: "string list" where
  "standard_order = [''views'', ''clicks'', ''spend'', ''orders'', ''revenue'']"

record row =
  row_date :: string
  row_cols :: "(string \<times> rat) list"
  row_derived :: "derived option"

text \<open>Lines 289-293: every column is the rounded reduction of its list of values.\<close>

fun reduce_cols :: "string \<Rightarrow> (string \<rightharpoonup> rat list) \<Rightarrow> string list \<Rightarrow> error + (string \<times> rat) list" where
  "reduce_cols policy metric_map [] = Inr []"
| "reduce_cols policy metric_map (k # ks) =
     ebind (reduce_vals (map Some (case metric_map k of None \<Rightarrow> [] | Some l \<Rightarrow> l)) policy) (\<lambda>x.
     ebind (reduce_cols policy metric_map ks) (\<lambda>rest. Inr ((k, round6 x) # rest)))"

definition row_get :: "(string \<times> rat) list \<Rightarrow> string \<Rightarrow> rat" where
  \<comment> \<open>\<^verbatim>\<open>row.get(k, 0.0)\<close>\<close>
  "row_get cols k = (case map_of cols k of None \<Rightarrow> 0 | Some x \<Rightarrow> x)"

text \<open>Lines 286-301: the row of one date.\<close>

definition make_row :: "options \<Rightarrow> string list \<Rightarrow> string \<Rightarrow> (string \<rightharpoonup> rat list) \<Rightarrow> error + row" where
  "make_row opts other_cols d metric_map =
     ebind (reduce_cols (aggregate_policy opts) metric_map (standard_order @ other_cols)) (\<lambda>cols.
       if derived_flag opts then
         ebind (derived_metrics (row_get cols ''views'') (row_get cols ''clicks'')
                  (row_get cols ''spend'') (row_get cols ''orders'') (row_get cols ''revenue''))
           (\<lambda>dm. Inr \<lparr>row_date = d, row_cols = cols, row_derived = Some dm\<rparr>)
       else Inr \<lparr>row_date = d, row_cols = cols, row_derived = None\<rparr>)"

text \<open>A value is nested in another when it is that value, or is nested in one of the elements
  of that array, or in one of the values of that object.\<close>

inductive nested_in :: "json \<Rightarrow> json \<Rightarrow> bool" where
  nested_self: "nested_in v v"
| nested_arr: "nested_in v x \<Longrightarrow> x \<in> set xs \<Longrightarrow> nested_in v (JArr xs)"
| nested_obj: "nested_in v x \<Longrightarrow> (k, x) \<in> set kvs \<Longrightarrow> nested_in v (JObj kvs)"

text \<open>The characters an expression can consume.\<close>

fun may_consume :: "rx \<Rightarrow> char \<Rightarrow> bool" where
  "may_consume (Sym P) c = P c"
| "may_consume Eps c = False"
| "may_consume (Seq a b) c = (may_consume a c \<or> may_consume b c)"
| "may_consume (Alt a b) c = (may_consume a c \<or> may_consume b c)"
| "may_consume (Opt a) c = may_consume a c"
| "may_consume (Plus P) c = P c"

section \<open>Properties of the reduction engine\<close>

lemma foldl_min_Min: "foldl (\<lambda>m v. if v < m then v else m) (x::rat) xs = Min (set (x # xs))"
proof -
  have "(\<lambda>m v. if v < m then v else m) = (\<lambda>m v. min v (m::rat))"
    by (auto simp: min_def fun_eq_iff)
  then show ?thesis
    by (simp only: foldl_conv_fold Min.set_eq_fold)
qed

lemma py_min_Min: "xs \<noteq> [] \<Longrightarrow> py_min xs = Inr (Min (set xs))"
  by (cases xs) (simp_all add: foldl_min_Min del: set_simps)

lemma py_min_total: "xs \<noteq> [] \<Longrightarrow> \<not> isl (py_min xs)"
  by (cases xs) simp_all

lemma py_max_total: "xs \<noteq> [] \<Longrightarrow> \<not> isl (py_max xs)"
  by (cases xs) simp_all

lemma sort_Nil_iff: "sort xs = [] \<longleftrightarrow> xs = []"
  by (metis length_0_conv length_sort)

lemma median_total: "xs \<noteq> [] \<Longrightarrow> \<not> isl (median xs)"
  by (simp add: median_def Let_def sort_Nil_iff)

text \<open>No policy, known or unknown, makes the reducer raise.\<close>

lemma reduce_vals_total: "\<not> isl (reduce_vals arr policy)"
  unfolding reduce_vals_def Let_def
  using py_min_total py_max_total median_total
  by simp

text \<open>
  Claim C4.  Under the policy \<^verbatim>\<open>min-nonzero\<close> the reducer returns the least of the strictly
  positive observed values, and 0 when no observed value is strictly positive.
\<close>

theorem reduce_vals_min_nonzero:
  "reduce_vals arr ''min-nonzero'' =
     Inr (if \<exists>x \<in> set (observed arr). 0 < x
          then Min (set (filter (\<lambda>x. 0 < x) (observed arr))) else 0)"
proof (cases "filter (\<lambda>v. v > 0) (observed arr) = []")
  case True
  then have "\<not> (\<exists>x \<in> set (observed arr). 0 < x)"
    by (simp add: filter_empty_conv)
  with True show ?thesis
    by (auto simp add: reduce_vals_def Let_def)
next
  case False
  then have ex: "\<exists>x \<in> set (observed arr). 0 < x"
    by (simp add: filter_empty_conv)
  have ne: "observed arr \<noteq> []" using False by auto
  from py_min_Min [OF False] ex ne False show ?thesis
    by (simp add: reduce_vals_def Let_def)
qed

text \<open>The instance of the specification, and a sequence without a positive value.\<close>

theorem reduce_vals_min_nonzero_witness:
  "reduce_vals [Some 120, Some 4, Some 6] ''min-nonzero'' = Inr 4
   \<and> reduce_vals [Some 0, None, Some (- 3)] ''min-nonzero'' = Inr 0"
  using reduce_vals_min_nonzero [of "[Some 120, Some 4, Some 6]"]
        reduce_vals_min_nonzero [of "[Some 0, None, Some (- 3)]"]
  by (simp add: observed_def)

text \<open>
  Claim C6, as the code has it.  On a single observed value \<open>x\<close> the policies \<^verbatim>\<open>sum\<close>,
  \<^verbatim>\<open>min\<close>, \<^verbatim>\<open>max\<close> and \<^verbatim>\<open>median\<close> return \<open>x\<close>; \<^verbatim>\<open>min-nonzero\<close> returns \<open>x\<close> when \<open>x\<close> is
  not negative and 0 otherwise.
\<close>

theorem reduce_vals_single:
  "(policy \<in> {''sum'', ''min'', ''max'', ''median''} \<longrightarrow> reduce_vals [Some x] policy = Inr x)
   \<and> reduce_vals [Some x] ''min-nonzero'' = Inr (if 0 < x then x else 0)
   \<and> (0 \<le> x \<longrightarrow> reduce_vals [Some x] ''min-nonzero'' = Inr x)"
  by (auto simp add: reduce_vals_def observed_def py_sum_def median_def)

theorem reduce_vals_single_witness:
  "reduce_vals [Some 5] ''sum'' = Inr 5 \<and> reduce_vals [Some 5] ''min'' = Inr 5
   \<and> reduce_vals [Some 5] ''max'' = Inr 5 \<and> reduce_vals [Some 5] ''median'' = Inr 5
   \<and> reduce_vals [Some 5] ''min-nonzero'' = Inr 5
   \<and> reduce_vals [Some (- 5)] ''min'' = Inr (- 5)"
  using reduce_vals_single [of "''sum''" 5] reduce_vals_single [of "''min''" 5]
        reduce_vals_single [of "''max''" 5] reduce_vals_single [of "''median''" 5]
        reduce_vals_single [of "''min''" "- 5"]
  by simp

text \<open>A single negative value is not returned by \<^verbatim>\<open>min-nonzero\<close>.\<close>

theorem reduce_vals_single_min_nonzero_counterexample:
  "reduce_vals [Some (- 5)] ''min-nonzero'' \<noteq> Inr (- 5)"
  by (simp add: reduce_vals_def observed_def)

section \<open>Properties of the derived metrics\<close>

lemma round6_zero: "round6 0 = 0"
  by (simp add: round6_def round_half_even_def)

lemma derived_metrics_value:
  "derived_metrics v c s od r =
     Inr \<lparr>ctr = round6 (if v \<noteq> 0 then c / v else 0),
          cpc = round6 (if c \<noteq> 0 then s / c else 0),
          cpm = round6 (if v \<noteq> 0 then s / (v / 1000) else 0),
          order_rate = round6 (if c \<noteq> 0 then od / c else 0),
          roas = round6 (if s \<noteq> 0 then r / s else 0)\<rparr>"
  by (simp add: derived_metrics_def ebind_def py_truediv_def)

lemma reduce_cols_total: "\<not> isl (reduce_cols policy mm ks)"
proof (induction ks)
  case Nil
  show ?case by simp
next
  case (Cons k ks)
  obtain x where x: "reduce_vals (map Some (case mm k of None \<Rightarrow> [] | Some l \<Rightarrow> l)) policy = Inr x"
    using reduce_vals_total [of "map Some (case mm k of None \<Rightarrow> [] | Some l \<Rightarrow> l)" policy]
    by (cases "reduce_vals (map Some (case mm k of None \<Rightarrow> [] | Some l \<Rightarrow> l)) policy") auto
  obtain rest where rest: "reduce_cols policy mm ks = Inr rest"
    using Cons.IH by (cases "reduce_cols policy mm ks") auto
  show ?case by (simp add: x rest ebind_def)
qed

text \<open>
  Claim C7.  Building a row never raises, whatever the accumulated values, the policy and the
  columns are; when derived metrics are requested the row carries them, and each ratio is 0
  when its denominator (views for ctr and cpm, clicks for cpc and order rate, spend for roas)
  is 0.  For arbitrary reduced values the five ratios are computed without a division error,
  are 0 on a zero denominator and the rounded quotient otherwise.
\<close>

theorem derived_ratios_safe:
  "(\<exists>rw. make_row opts other_cols d metric_map = Inr rw \<and>
     (derived_flag opts \<longrightarrow>
        (\<exists>dm. row_derived rw = Some dm \<and>
           derived_metrics (row_get (row_cols rw) ''views'') (row_get (row_cols rw) ''clicks'')
             (row_get (row_cols rw) ''spend'') (row_get (row_cols rw) ''orders'')
             (row_get (row_cols rw) ''revenue'') = Inr dm \<and>
           (row_get (row_cols rw) ''views'' = 0 \<longrightarrow> ctr dm = 0 \<and> cpm dm = 0) \<and>
           (row_get (row_cols rw) ''clicks'' = 0 \<longrightarrow> cpc dm = 0 \<and> order_rate dm = 0) \<and>
           (row_get (row_cols rw) ''spend'' = 0 \<longrightarrow> roas dm = 0))))
   \<and> (\<exists>dm. derived_metrics v c s od r = Inr dm \<and>
         (v = 0 \<longrightarrow> ctr dm = 0 \<and> cpm dm = 0) \<and>
         (c = 0 \<longrightarrow> cpc dm = 0 \<and> order_rate dm = 0) \<and>
         (s = 0 \<longrightarrow> roas dm = 0) \<and>
         (v \<noteq> 0 \<longrightarrow> ctr dm = round6 (c / v) \<and> cpm dm = round6 (s / (v / 1000))) \<and>
         (c \<noteq> 0 \<longrightarrow> cpc dm = round6 (s / c) \<and> order_rate dm = round6 (od / c)) \<and>
         (s \<noteq> 0 \<longrightarrow> roas dm = round6 (r / s)))"
proof -
  obtain cols where cols:
    "reduce_cols (aggregate_policy opts) metric_map (standard_order @ other_cols) = Inr cols"
    using reduce_cols_total [of "aggregate_policy opts" metric_map "standard_order @ other_cols"]
    by (cases "reduce_cols (aggregate_policy opts) metric_map (standard_order @ other_cols)") auto
  have A: "\<exists>rw. make_row opts other_cols d metric_map = Inr rw \<and>
     (derived_flag opts \<longrightarrow>
        (\<exists>dm. row_derived rw = Some dm \<and>
           derived_metrics (row_get (row_cols rw) ''views'') (row_get (row_cols rw) ''clicks'')
             (row_get (row_cols rw) ''spend'') (row_get (row_cols rw) ''orders'')
             (row_get (row_cols rw) ''revenue'') = Inr dm \<and>
           (row_get (row_cols rw) ''views'' = 0 \<longrightarrow> ctr dm = 0 \<and> cpm dm = 0) \<and>
           (row_get (row_cols rw) ''clicks'' = 0 \<longrightarrow> cpc dm = 0 \<and> order_rate dm = 0) \<and>
           (row_get (row_cols rw) ''spend'' = 0 \<longrightarrow> roas dm = 0)))"
    by (simp add: make_row_def cols ebind_def derived_metrics_value round6_zero)
  have B: "\<exists>dm. derived_metrics v c s od r = Inr dm \<and>
         (v = 0 \<longrightarrow> ctr dm = 0 \<and> cpm dm = 0) \<and>
         (c = 0 \<longrightarrow> cpc dm = 0 \<and> order_rate dm = 0) \<and>
         (s = 0 \<longrightarrow> roas dm = 0) \<and>
         (v \<noteq> 0 \<longrightarrow> ctr dm = round6 (c / v) \<and> cpm dm = round6 (s / (v / 1000))) \<and>
         (c \<noteq> 0 \<longrightarrow> cpc dm = round6 (s / c) \<and> order_rate dm = round6 (od / c)) \<and>
         (s \<noteq> 0 \<longrightarrow> roas dm = round6 (r / s))"
    by (simp add: derived_metrics_value round6_zero)
  from A B show ?thesis by blast
qed

text \<open>The row of a date with clicks and spend but no views, orders or revenue, and the
  example of the specification.\<close>

theorem derived_ratios_safe_witness:
  "derived_flag \<lparr>skip_range_totals = True, keep_raw = False, tz_offset = 0,
                 aggregate_policy = ''sum'', derived_flag = True\<rparr>
   \<and> (\<exists>rw dm. make_row \<lparr>skip_range_totals = True, keep_raw = False, tz_offset = 0,
                        aggregate_policy = ''sum'', derived_flag = True\<rparr> []
                 ''2024-03-05'' [''clicks'' \<mapsto> [3], ''spend'' \<mapsto> [2, 1]] = Inr rw
        \<and> row_cols rw = [(''views'', 0), (''clicks'', 3), (''spend'', 3), (''orders'', 0),
                          (''revenue'', 0)]
        \<and> row_derived rw = Some dm \<and> ctr dm = 0 \<and> cpm dm = 0 \<and> cpc dm = 1)
   \<and> (\<exists>dm. derived_metrics 0 0 0 0 0 = Inr dm \<and> ctr dm = 0 \<and> cpc dm = 0 \<and> cpm dm = 0
         \<and> order_rate dm = 0 \<and> roas dm = 0)
   \<and> derived_metrics 1000 20 50 2 40
       = Inr \<lparr>ctr = 1 / 50, cpc = 5 / 2, cpm = 50, order_rate = 1 / 10, roas = 4 / 5\<rparr>"
proof -
  let ?o = "\<lparr>skip_range_totals = True, keep_raw = False, tz_offset = 0,
             aggregate_policy = ''sum'', derived_flag = True\<rparr>"
  let ?mm = "[''clicks'' \<mapsto> [3::rat], ''spend'' \<mapsto> [2, 1]]"
  have row: "make_row ?o [] ''2024-03-05'' ?mm
      = Inr \<lparr>row_date = ''2024-03-05'',
             row_cols = [(''views'', 0), (''clicks'', 3), (''spend'', 3), (''orders'', 0),
                         (''revenue'', 0)],
             row_derived = Some \<lparr>ctr = 0, cpc = 1, cpm = 0, order_rate = 0, roas = 0\<rparr>\<rparr>"
    by code_simp
  have ex: "derived_metrics 1000 20 50 2 40
       = Inr \<lparr>ctr = 1 / 50, cpc = 5 / 2, cpm = 50, order_rate = 1 / 10, roas = 4 / 5\<rparr>"
    by code_simp
  from derived_ratios_safe [of ?o "[]" "''2024-03-05''" ?mm 0 0 0 0 0]
  have z: "\<exists>dm. derived_metrics 0 0 0 0 0 = Inr dm \<and> ctr dm = 0 \<and> cpc dm = 0 \<and> cpm dm = 0
         \<and> order_rate dm = 0 \<and> roas dm = 0"
    by auto
  from row ex z show ?thesis by simp
qed

section \<open>Properties of the accumulation loop\<close>

lemma acc_get_append_value:
  "acc_get (append_value acc d m x) d' m' =
     (if d = d' \<and> m = m' then acc_get acc d m @ [x] else acc_get acc d' m')"
  by (auto simp add: acc_get_def append_value_def Let_def split: option.splits)

text \<open>
  Claim C2.  A record is classified as a range total exactly when its lower-cased keys meet
  the range-indicator names and contain none of the per-day container names.  With
  suppression on, a record so classified leaves the accumulator as it was; with suppression
  off, every record goes through date resolution and field accumulation.
\<close>

theorem range_total_classifier:
  "(looks_like_range_total d \<longleftrightarrow>
      lower_keys d \<inter> set RANGE_HINT_KEYS \<noteq> {} \<and> lower_keys d \<inter> set DAY_CONTAINER_KEYS = {})
   \<and> (skip_range_totals opts \<and> looks_like_range_total d \<longrightarrow> handle_record opts acc d = acc)
   \<and> (\<not> skip_range_totals opts \<longrightarrow>
        handle_record opts acc d = accumulate_record (tz_offset opts) (keep_raw opts) acc d)"
  by (auto simp add: looks_like_range_total_def handle_record_def Let_def)

text \<open>The record \<^verbatim>\<open>{"date": "2024-03-01", "End_Date": "2024-03-07", "total_spend": 700}\<close>
  is a range total: suppressed it adds nothing, kept it adds its spend to its date.  A record
  with a per-day container key is not a range total.\<close>

theorem range_total_classifier_witness:
  "looks_like_range_total [(''date'', JStr ''2024-03-01''), (''End_Date'', JStr ''2024-03-07''),
                           (''total_spend'', JInt 700)]
   \<and> \<not> looks_like_range_total [(''start_date'', JStr ''2024-03-01''), (''days'', JArr [])]
   \<and> handle_record \<lparr>skip_range_totals = True, keep_raw = False, tz_offset = 0,
                      aggregate_policy = ''sum'', derived_flag = False\<rparr> Map.empty
        [(''date'', JStr ''2024-03-01''), (''End_Date'', JStr ''2024-03-07''),
         (''total_spend'', JInt 700)] = Map.empty
   \<and> acc_get (handle_record \<lparr>skip_range_totals = False, keep_raw = False, tz_offset = 0,
                      aggregate_policy = ''sum'', derived_flag = False\<rparr> Map.empty
        [(''date'', JStr ''2024-03-01''), (''End_Date'', JStr ''2024-03-07''),
         (''total_spend'', JInt 700)]) ''2024-03-01'' ''total_spend'' = [700]"
proof -
  let ?d = "[(''date'', JStr ''2024-03-01''), (''End_Date'', JStr ''2024-03-07''),
             (''total_spend'', JInt 700)]"
  let ?on = "\<lparr>skip_range_totals = True, keep_raw = False, tz_offset = 0,
              aggregate_policy = ''sum'', derived_flag = False\<rparr>"
  let ?off = "\<lparr>skip_range_totals = False, keep_raw = False, tz_offset = 0,
               aggregate_policy = ''sum'', derived_flag = False\<rparr>"
  have c1: "looks_like_range_total ?d" by code_simp
  have c2: "\<not> looks_like_range_total [(''start_date'', JStr ''2024-03-01''), (''days'', JArr [])]"
    by code_simp
  have a: "acc_get (accumulate_record 0 False Map.empty ?d) ''2024-03-01'' ''total_spend'' = [700]"
    by code_simp
  from range_total_classifier [of ?d ?on Map.empty] c1
  have s: "handle_record ?on Map.empty ?d = Map.empty" by simp
  from range_total_classifier [of ?d ?off Map.empty]
  have k: "handle_record ?off Map.empty ?d = accumulate_record 0 False Map.empty ?d" by simp
  from c1 c2 s k a show ?thesis by simp
qed

lemma isoformat_nonempty: "isoformat ymd \<noteq> []"
  by (cases ymd) (simp add: isoformat_def pad4_def)

lemma try_datetime_nonempty: "try_datetime tz s fmts = Some r \<Longrightarrow> r \<noteq> []"
  by (induction fmts) (auto simp add: isoformat_nonempty split: option.splits)

lemma try_date_nonempty: "try_date s fmts = Some r \<Longrightarrow> r \<noteq> []"
  by (induction fmts) (auto simp add: isoformat_nonempty split: option.splits)

lemma re_search_iso_nonempty: "re_search_iso s = Some r \<Longrightarrow> r \<noteq> []"
  by (induction s) (auto split: if_splits)

lemma epoch_date_nonempty: "epoch_date tz n = Some r \<Longrightarrow> r \<noteq> []"
  by (auto simp add: epoch_date_def Let_def isoformat_nonempty split: option.splits)

text \<open>A normalized date is never the empty string, so the test of line 225 fails only on
  \<^verbatim>\<open>None\<close>.\<close>

lemma norm_date_nonempty: "norm_date tz v = Some r \<Longrightarrow> r \<noteq> []"
proof (cases v)
  case (JStr s)
  assume "norm_date tz v = Some r"
  with JStr show ?thesis
    using try_datetime_nonempty try_date_nonempty re_search_iso_nonempty
    by (auto simp add: Let_def split: option.splits)
qed (auto dest: epoch_date_nonempty)

text \<open>The item loop stores under its date only.\<close>

lemma add_field_other_date:
  "d' \<noteq> date_iso \<Longrightarrow> acc_get (add_field keep date_iso keyset acc kv) d' m = acc_get acc d' m"
  by (cases "scale (lower (fst kv)) (the (coerce_number (snd kv)))")
     (auto simp add: add_field_def Let_def acc_get_append_value split: option.splits)

lemma foldl_add_field_other_date:
  "d' \<noteq> date_iso \<Longrightarrow>
     acc_get (foldl (add_field keep date_iso keyset) acc kvs) d' m = acc_get acc d' m"
  by (induction kvs arbitrary: acc) (simp_all add: add_field_other_date)

text \<open>
  Claim C8.  The date of a record is resolved from the value of the first key, in iteration
  order, whose lower-cased name is a date key.  When that value does not normalize, the record
  adds nothing, whatever the later fields hold.  When it normalizes and the record is not
  suppressed as a range total, the record is what the item loop adds under that date, and
  the values stored under every other date stay as they were.
\<close>

theorem first_date_key_decides:
  "(\<forall>kv \<in> set pre. lower (fst kv) \<notin> set DATE_KEYS) \<and> lower k \<in> set DATE_KEYS \<longrightarrow>
     find_date_val (pre @ (k, v) # post) = v
     \<and> (norm_date (tz_offset opts) v = None \<longrightarrow>
          handle_record opts acc (pre @ (k, v) # post) = acc)
     \<and> (\<forall>date_iso. norm_date (tz_offset opts) v = Some date_iso
            \<and> \<not> (skip_range_totals opts \<and> looks_like_range_total (pre @ (k, v) # post)) \<longrightarrow>
          handle_record opts acc (pre @ (k, v) # post)
            = foldl (add_field (keep_raw opts) date_iso (lower_keys (pre @ (k, v) # post))) acc
                (pre @ (k, v) # post)
          \<and> (\<forall>d' m. d' \<noteq> date_iso \<longrightarrow>
                acc_get (handle_record opts acc (pre @ (k, v) # post)) d' m = acc_get acc d' m))"
proof (intro impI, elim conjE)
  assume pre: "\<forall>kv \<in> set pre. lower (fst kv) \<notin> set DATE_KEYS" and k: "lower k \<in> set DATE_KEYS"
  let ?d = "pre @ (k, v) # post"
  have f: "find_date_val ?d = v"
    using pre by (induction pre) (simp_all add: k)
  have n: "norm_date (tz_offset opts) v = None \<longrightarrow> handle_record opts acc ?d = acc"
    by (simp add: f handle_record_def accumulate_record_def)
  have p: "\<forall>date_iso. norm_date (tz_offset opts) v = Some date_iso
            \<and> \<not> (skip_range_totals opts \<and> looks_like_range_total ?d) \<longrightarrow>
          handle_record opts acc ?d
            = foldl (add_field (keep_raw opts) date_iso (lower_keys ?d)) acc ?d
          \<and> (\<forall>d' m. d' \<noteq> date_iso \<longrightarrow>
                acc_get (handle_record opts acc ?d) d' m = acc_get acc d' m)"
  proof (intro allI impI, elim conjE)
    fix date_iso
    assume nd: "norm_date (tz_offset opts) v = Some date_iso"
      and ns: "\<not> (skip_range_totals opts \<and> looks_like_range_total ?d)"
    from norm_date_nonempty [OF nd] have ne: "date_iso \<noteq> []" .
    have h: "handle_record opts acc ?d
               = foldl (add_field (keep_raw opts) date_iso (lower_keys ?d)) acc ?d"
      by (simp only: handle_record_def accumulate_record_def f nd ns ne if_False option.case)
    show "handle_record opts acc ?d
            = foldl (add_field (keep_raw opts) date_iso (lower_keys ?d)) acc ?d
          \<and> (\<forall>d' m. d' \<noteq> date_iso \<longrightarrow>
                acc_get (handle_record opts acc ?d) d' m = acc_get acc d' m)"
      unfolding h using foldl_add_field_other_date by blast
  qed
  from f n p show "find_date_val ?d = v
     \<and> (norm_date (tz_offset opts) v = None \<longrightarrow> handle_record opts acc ?d = acc)
     \<and> (\<forall>date_iso. norm_date (tz_offset opts) v = Some date_iso
            \<and> \<not> (skip_range_totals opts \<and> looks_like_range_total ?d) \<longrightarrow>
          handle_record opts acc ?d
            = foldl (add_field (keep_raw opts) date_iso (lower_keys ?d)) acc ?d
          \<and> (\<forall>d' m. d' \<noteq> date_iso \<longrightarrow>
                acc_get (handle_record opts acc ?d) d' m = acc_get acc d' m))"
    by (intro conjI)
qed

text \<open>The record \<^verbatim>\<open>{"clicks": 3, "Date": "n/a", "day": "2024-03-05"}\<close> is dropped although
  its \<^verbatim>\<open>day\<close> field holds a date that normalizes.  With the two date keys swapped,
  \<^verbatim>\<open>{"clicks": 3, "day": "2024-03-05", "Date": "n/a"}\<close>, the clicks are stored under 5 March.
  The record \<^verbatim>\<open>{"day": "2024-03-06", "clicks": 3, "date": "2024-03-05"}\<close> is stored under
  6 March, the date of its first date key, and not under 5 March.\<close>

theorem first_date_key_decides_witness:
  "lower ''clicks'' \<notin> set DATE_KEYS
   \<and> lower ''Date'' \<in> set DATE_KEYS
   \<and> norm_date 0 (JStr ''n/a'') = None
   \<and> norm_date 0 (JStr ''2024-03-05'') = Some ''2024-03-05''
   \<and> find_date_val [(''clicks'', JInt 3), (''Date'', JStr ''n/a''), (''day'', JStr ''2024-03-05'')]
       = JStr ''n/a''
   \<and> handle_record \<lparr>skip_range_totals = True, keep_raw = False, tz_offset = 0,
                      aggregate_policy = ''sum'', derived_flag = False\<rparr> Map.empty
        [(''clicks'', JInt 3), (''Date'', JStr ''n/a''), (''day'', JStr ''2024-03-05'')]
       = Map.empty
   \<and> acc_get (handle_record \<lparr>skip_range_totals = True, keep_raw = False, tz_offset = 0,
                      aggregate_policy = ''sum'', derived_flag = False\<rparr> Map.empty
        [(''clicks'', JInt 3), (''day'', JStr ''2024-03-05''), (''Date'', JStr ''n/a'')])
        ''2024-03-05'' ''clicks'' = [3]
   \<and> acc_get (handle_record \<lparr>skip_range_totals = True, keep_raw = False, tz_offset = 0,
                      aggregate_policy = ''sum'', derived_flag = False\<rparr> Map.empty
        [(''day'', JStr ''2024-03-06''), (''clicks'', JInt 3), (''date'', JStr ''2024-03-05'')])
        ''2024-03-06'' ''clicks'' = [3]
   \<and> acc_get (handle_record \<lparr>skip_range_totals = True, keep_raw = False, tz_offset = 0,
                      aggregate_policy = ''sum'', derived_flag = False\<rparr> Map.empty
        [(''day'', JStr ''2024-03-06''), (''clicks'', JInt 3), (''date'', JStr ''2024-03-05'')])
        ''2024-03-05'' ''clicks'' = []"
proof -
  let ?o = "\<lparr>skip_range_totals = True, keep_raw = False, tz_offset = 0,
             aggregate_policy = ''sum'', derived_flag = False\<rparr>"
  have h0: "lower ''clicks'' \<notin> set DATE_KEYS" by code_simp
  then have h1: "\<forall>kv \<in> set [(''clicks'', JInt 3)]. lower (fst kv) \<notin> set DATE_KEYS" by simp
  have h2: "lower ''Date'' \<in> set DATE_KEYS" by code_simp
  have h3: "norm_date 0 (JStr ''n/a'') = None" by code_simp
  have h4: "norm_date 0 (JStr ''2024-03-05'') = Some ''2024-03-05''" by code_simp
  from first_date_key_decides [of "[(''clicks'', JInt 3)]" "''Date''" "JStr ''n/a''"
         "[(''day'', JStr ''2024-03-05'')]" ?o Map.empty] h1 h2 h3
  have a: "find_date_val ([(''clicks'', JInt 3)] @ (''Date'', JStr ''n/a'') # [(''day'', JStr ''2024-03-05'')])
          = JStr ''n/a''
        \<and> handle_record ?o Map.empty
            ([(''clicks'', JInt 3)] @ (''Date'', JStr ''n/a'') # [(''day'', JStr ''2024-03-05'')])
          = Map.empty"
    by simp
  let ?s = "[(''clicks'', JInt 3)] @ (''day'', JStr ''2024-03-05'') # [(''Date'', JStr ''n/a'')]"
  have k2: "lower ''day'' \<in> set DATE_KEYS" by code_simp
  have n2: "norm_date (tz_offset ?o) (JStr ''2024-03-05'') = Some ''2024-03-05''
            \<and> \<not> (skip_range_totals ?o \<and> looks_like_range_total ?s)"
    by code_simp
  have v2: "acc_get (foldl (add_field (keep_raw ?o) ''2024-03-05'' (lower_keys ?s)) Map.empty ?s)
              ''2024-03-05'' ''clicks'' = [3]"
    by code_simp
  note s1 = first_date_key_decides [of "[(''clicks'', JInt 3)]" "''day''" "JStr ''2024-03-05''"
         "[(''Date'', JStr ''n/a'')]" ?o Map.empty, THEN mp, OF conjI [OF h1 k2]]
  note s2 = s1 [THEN conjunct2, THEN conjunct2, rule_format, OF n2]
  have b: "acc_get (handle_record ?o Map.empty ?s) ''2024-03-05'' ''clicks'' = [3]"
    unfolding s2 [THEN conjunct1] by (rule v2)
  let ?t = "[] @ (''day'', JStr ''2024-03-06'') # [(''clicks'', JInt 3), (''date'', JStr ''2024-03-05'')]"
  have h6: "\<forall>kv \<in> set ([] :: (string \<times> json) list). lower (fst kv) \<notin> set DATE_KEYS" by simp
  have n3: "norm_date (tz_offset ?o) (JStr ''2024-03-06'') = Some ''2024-03-06''
            \<and> \<not> (skip_range_totals ?o \<and> looks_like_range_total ?t)"
    by code_simp
  have v3: "acc_get (foldl (add_field (keep_raw ?o) ''2024-03-06'' (lower_keys ?t)) Map.empty ?t)
              ''2024-03-06'' ''clicks'' = [3]"
    by code_simp
  have ne: "''2024-03-05'' \<noteq> ''2024-03-06''" by simp
  have e: "acc_get Map.empty ''2024-03-05'' ''clicks'' = []" by (simp add: acc_get_def)
  note t1 = first_date_key_decides [of "[]" "''day''" "JStr ''2024-03-06''"
         "[(''clicks'', JInt 3), (''date'', JStr ''2024-03-05'')]" ?o Map.empty, THEN mp,
         OF conjI [OF h6 k2]]
  note t2 = t1 [THEN conjunct2, THEN conjunct2, rule_format, OF n3]
  have c: "acc_get (handle_record ?o Map.empty ?t) ''2024-03-06'' ''clicks'' = [3]"
    unfolding t2 [THEN conjunct1] by (rule v3)
  have d: "acc_get (handle_record ?o Map.empty ?t) ''2024-03-05'' ''clicks'' = []"
    using t2 [THEN conjunct2, rule_format, OF ne, of "''clicks''"] e by simp
  from h0 h2 h3 h4 a b c d show ?thesis by simp
qed

lemma add_field_numeric:
  assumes "coerce_number v = Some num"
    and "lower k \<notin> set DATE_KEYS" and "lower k \<notin> set SKIP_KEYS"
    and "\<not> superseded keyset (lower k)"
  shows "acc_get (add_field keep date_iso keyset acc (k, v)) date_iso
           (remap (snd (scale (lower k) num)))
         = acc_get acc date_iso (remap (snd (scale (lower k) num))) @ [fst (scale (lower k) num)]"
proof (cases "scale (lower k) num")
  case (Pair num' base)
  with assms show ?thesis
    by (simp add: add_field_def Let_def acc_get_append_value)
qed

text \<open>
  Claim C10, as the code has it.  Numeric coercion turns the booleans into 1 and 0, and a
  boolean field is treated by the item loop exactly as the number it coerces to.  Unless
  its key is a date key, a skip key or a bare name superseded by a scaled sibling, its
  (rescaled) value is appended to the values of its canonical metric; under a date key, a
  skip key or a superseded bare name it adds nothing.
\<close>

theorem booleans_are_numbers:
  "coerce_number (JBool b) = Some (if b then 1 else 0)
   \<and> add_field keep date_iso keyset acc (k, JBool b)
       = add_field keep date_iso keyset acc (k, JFloat (if b then 1 else 0))
   \<and> (lower k \<notin> set DATE_KEYS \<and> lower k \<notin> set SKIP_KEYS \<and> \<not> superseded keyset (lower k) \<longrightarrow>
        acc_get (add_field keep date_iso keyset acc (k, JBool b)) date_iso
            (remap (snd (scale (lower k) (if b then 1 else 0))))
          = acc_get acc date_iso (remap (snd (scale (lower k) (if b then 1 else 0))))
              @ [fst (scale (lower k) (if b then 1 else 0))])
   \<and> (lower k \<in> set DATE_KEYS \<or> lower k \<in> set SKIP_KEYS \<or> superseded keyset (lower k) \<longrightarrow>
        add_field keep date_iso keyset acc (k, JBool b) = acc)"
proof -
  have c: "coerce_number (JBool b) = Some (if b then 1 else 0)" by simp
  have e: "add_field keep date_iso keyset acc (k, JBool b)
       = add_field keep date_iso keyset acc (k, JFloat (if b then 1 else 0))"
    by (cases b) (simp_all add: add_field_def Let_def)
  have x: "lower k \<in> set DATE_KEYS \<or> lower k \<in> set SKIP_KEYS \<or> superseded keyset (lower k) \<longrightarrow>
        add_field keep date_iso keyset acc (k, JBool b) = acc"
    by (auto simp add: add_field_def Let_def)
  show ?thesis
    using c e x add_field_numeric [OF c, of k keyset keep date_iso acc] by blast
qed

text \<open>The field \<^verbatim>\<open>"Is_Active": true\<close> becomes the value 1 of the metric \<^verbatim>\<open>is_active\<close>, also
  through the whole record loop.\<close>

theorem booleans_are_numbers_witness:
  "lower ''Is_Active'' \<notin> set DATE_KEYS \<and> lower ''Is_Active'' \<notin> set SKIP_KEYS
   \<and> \<not> superseded {''date'', ''is_active''} (lower ''Is_Active'')
   \<and> acc_get (add_field False ''2024-03-05'' {''date'', ''is_active''} Map.empty
                 (''Is_Active'', JBool True)) ''2024-03-05'' ''is_active'' = [1]
   \<and> acc_get (handle_record \<lparr>skip_range_totals = True, keep_raw = False, tz_offset = 0,
                 aggregate_policy = ''sum'', derived_flag = False\<rparr> Map.empty
                 [(''date'', JStr ''2024-03-05''), (''Is_Active'', JBool True)])
        ''2024-03-05'' ''is_active'' = [1]
   \<and> superseded {''date'', ''spend'', ''spend_cents''} (lower ''spend'')
   \<and> add_field False ''2024-03-05'' {''date'', ''spend'', ''spend_cents''} Map.empty
        (''spend'', JBool True) = Map.empty"
proof -
  have h: "lower ''Is_Active'' \<notin> set DATE_KEYS \<and> lower ''Is_Active'' \<notin> set SKIP_KEYS
           \<and> \<not> superseded {''date'', ''is_active''} (lower ''Is_Active'')"
    by code_simp
  have sc: "scale (lower ''Is_Active'') 1 = (1, ''is_active'')" by code_simp
  have rm: "remap ''is_active'' = ''is_active''" by code_simp
  have e: "acc_get Map.empty ''2024-03-05'' ''is_active'' = []" by (simp add: acc_get_def)
  have whole: "acc_get (handle_record \<lparr>skip_range_totals = True, keep_raw = False, tz_offset = 0,
                 aggregate_policy = ''sum'', derived_flag = False\<rparr> Map.empty
                 [(''date'', JStr ''2024-03-05''), (''Is_Active'', JBool True)])
        ''2024-03-05'' ''is_active'' = [1]"
    by code_simp
  from booleans_are_numbers [of True False "''2024-03-05''" "{''date'', ''is_active''}"
         Map.empty "''Is_Active''", THEN conjunct2, THEN conjunct2, THEN conjunct1] h
  have a: "acc_get (add_field False ''2024-03-05'' {''date'', ''is_active''} Map.empty
                 (''Is_Active'', JBool True)) ''2024-03-05'' ''is_active'' = [1]"
    by (simp add: sc rm e)
  have s: "superseded {''date'', ''spend'', ''spend_cents''} (lower ''spend'')" by code_simp
  from booleans_are_numbers [of True False "''2024-03-05''" "{''date'', ''spend'', ''spend_cents''}"
         Map.empty "''spend''", THEN conjunct2, THEN conjunct2, THEN conjunct2] s
  have n: "add_field False ''2024-03-05'' {''date'', ''spend'', ''spend_cents''} Map.empty
        (''spend'', JBool True) = Map.empty"
    by blast
  from h whole a s n show ?thesis by (intro conjI) simp_all
qed

text \<open>The record \<^verbatim>\<open>{"date": "2024-03-05", "spend": true, "spend_cents": 500}\<close>: the field
  \<^verbatim>\<open>spend\<close> is boolean, its key is neither a date key nor a skip key, and it coerces to 1,
  yet the record stores nothing but the spend value 5 of the scaled sibling.\<close>

theorem booleans_superseded_counterexample:
  "lower ''spend'' \<notin> set DATE_KEYS \<and> lower ''spend'' \<notin> set SKIP_KEYS
   \<and> coerce_number (JBool True) = Some 1
   \<and> handle_record \<lparr>skip_range_totals = True, keep_raw = False, tz_offset = 0,
                      aggregate_policy = ''sum'', derived_flag = False\<rparr> Map.empty
        [(''date'', JStr ''2024-03-05''), (''spend'', JBool True), (''spend_cents'', JInt 500)]
       = append_value Map.empty ''2024-03-05'' ''spend'' 5
   \<and> acc_get (handle_record \<lparr>skip_range_totals = True, keep_raw = False, tz_offset = 0,
                      aggregate_policy = ''sum'', derived_flag = False\<rparr> Map.empty
        [(''date'', JStr ''2024-03-05''), (''spend'', JBool True), (''spend_cents'', JInt 500)])
        ''2024-03-05'' ''spend'' = [5]"
proof -
  let ?d = "[(''date'', JStr ''2024-03-05''), (''spend'', JBool True), (''spend_cents'', JInt 500)]"
  let ?o = "\<lparr>skip_range_totals = True, keep_raw = False, tz_offset = 0,
             aggregate_policy = ''sum'', derived_flag = False\<rparr>"
  have k: "lower ''spend'' \<notin> set DATE_KEYS \<and> lower ''spend'' \<notin> set SKIP_KEYS" by code_simp
  have nr: "\<not> looks_like_range_total ?d" by code_simp
  have dv: "norm_date 0 (find_date_val ?d) = Some ''2024-03-05''" by code_simp
  have dk: "lower (fst (''date'', JStr ''2024-03-05'')) \<in> set DATE_KEYS" by code_simp
  have sp: "lower (fst (''spend'', JBool True)) \<notin> set DATE_KEYS
            \<and> lower (fst (''spend'', JBool True)) \<notin> set SKIP_KEYS
            \<and> superseded (lower_keys ?d) (lower (fst (''spend'', JBool True)))"
    by code_simp
  have sc: "lower (fst (''spend_cents'', JInt 500)) \<notin> set DATE_KEYS
            \<and> lower (fst (''spend_cents'', JInt 500)) \<notin> set SKIP_KEYS
            \<and> \<not> superseded (lower_keys ?d) (lower (fst (''spend_cents'', JInt 500)))
            \<and> scale (lower (fst (''spend_cents'', JInt 500))) (of_int 500) = (5, ''spend'')
            \<and> remap ''spend'' = ''spend''"
    by code_simp
  have f1: "add_field False ''2024-03-05'' (lower_keys ?d) Map.empty (''date'', JStr ''2024-03-05'')
              = Map.empty"
    unfolding add_field_def Let_def using dk by simp
  have f2: "add_field False ''2024-03-05'' (lower_keys ?d) Map.empty (''spend'', JBool True)
              = Map.empty"
    unfolding add_field_def Let_def using sp by simp
  have f3: "add_field False ''2024-03-05'' (lower_keys ?d) Map.empty (''spend_cents'', JInt 500)
              = append_value Map.empty ''2024-03-05'' ''spend'' 5"
    unfolding add_field_def Let_def using sc by simp
  have ar: "accumulate_record 0 False Map.empty ?d
            = foldl (add_field False ''2024-03-05'' (lower_keys ?d)) Map.empty ?d"
    unfolding accumulate_record_def dv by simp
  have fl: "foldl (add_field False ''2024-03-05'' (lower_keys ?d)) Map.empty ?d
            = append_value Map.empty ''2024-03-05'' ''spend'' 5"
    by (simp only: foldl_Cons foldl_Nil f1 f2 f3)
  have hr: "handle_record ?o Map.empty ?d = accumulate_record 0 False Map.empty ?d"
    using nr by (simp add: handle_record_def)
  have w: "handle_record ?o Map.empty ?d = append_value Map.empty ''2024-03-05'' ''spend'' 5"
    unfolding hr ar fl by (rule refl)
  have g: "acc_get (handle_record ?o Map.empty ?d) ''2024-03-05'' ''spend'' = [5]"
    unfolding w acc_get_append_value by (simp add: acc_get_def)
  have cn: "coerce_number (JBool True) = Some 1" by simp
  from k cn w g show ?thesis by (intro conjI) simp_all
qed

lemma superseded_add_field:
  "superseded keyset (lower k) \<Longrightarrow> add_field keep date_iso keyset acc (k, v) = acc"
  by (simp add: add_field_def Let_def split: option.splits)

lemma superseded_bare:
  "bare \<in> {''spend'', ''revenue''} \<Longrightarrow> bare @ ''_cents'' \<in> ks \<or> bare @ ''_micros'' \<in> ks
   \<Longrightarrow> superseded ks bare"
  by (auto simp add: superseded_def)

lemma foldl_drop_superseded:
  assumes "superseded ks bare"
  shows "foldl (add_field keep date_iso ks) acc d
       = foldl (add_field keep date_iso ks) acc (filter (\<lambda>kv. lower (fst kv) \<noteq> bare) d)"
proof (induction d arbitrary: acc)
  case Nil
  show ?case by simp
next
  case (Cons kv d)
  obtain k v where kv: "kv = (k, v)" by (cases kv)
  show ?case
  proof (cases "lower k = bare")
    case True
    then have "add_field keep date_iso ks acc (k, v) = acc"
      using assms superseded_add_field by simp
    with True kv Cons.IH show ?thesis by simp
  next
    case False
    with kv Cons.IH show ?thesis by simp
  qed
qed

lemma remap_spend: "remap ''spend'' = ''spend''"
  by (simp add: remap_def REMAP_def)

lemma remap_revenue: "remap ''revenue'' = ''revenue''"
  by (simp add: remap_def REMAP_def)

lemma scaled_keys_plain:
  "''spend_cents'' \<notin> set DATE_KEYS" "''spend_cents'' \<notin> set SKIP_KEYS"
  "''spend_micros'' \<notin> set DATE_KEYS" "''spend_micros'' \<notin> set SKIP_KEYS"
  "''revenue_cents'' \<notin> set DATE_KEYS" "''revenue_cents'' \<notin> set SKIP_KEYS"
  "''revenue_micros'' \<notin> set DATE_KEYS" "''revenue_micros'' \<notin> set SKIP_KEYS"
  by (simp_all add: DATE_KEYS_def SKIP_KEYS_def)

lemma scaled_keys_kept:
  "\<not> superseded ks ''spend_cents''" "\<not> superseded ks ''spend_micros''"
  "\<not> superseded ks ''revenue_cents''" "\<not> superseded ks ''revenue_micros''"
  by (simp_all add: superseded_def)

lemma scale_scaled:
  "scale ''spend_cents'' num = (num / 100, ''spend'')"
  "scale ''spend_micros'' num = (num / 1000000, ''spend'')"
  "scale ''revenue_cents'' num = (num / 100, ''revenue'')"
  "scale ''revenue_micros'' num = (num / 1000000, ''revenue'')"
  by (simp_all add: scale_def endswith_def)

lemma add_field_appends:
  assumes a: "kl \<notin> set DATE_KEYS" "kl \<notin> set SKIP_KEYS" and b: "\<not> superseded ks kl"
    and c: "scale kl num = (num', base)" and d: "remap base = base"
    and "lower k = kl" and "coerce_number v = Some num"
  shows "add_field keep date_iso ks acc (k, v) = append_value acc date_iso base num'"
  using assms by (simp add: add_field_def Let_def)

lemma scaled_cents:
  assumes "bare \<in> {''spend'', ''revenue''}" and "lower k = bare @ ''_cents''"
    and "coerce_number v = Some num"
  shows "add_field keep date_iso ks acc (k, v) = append_value acc date_iso bare (num / 100)"
proof (cases "bare = ''spend''")
  case True
  with assms(2) have k: "lower k = ''spend_cents''" by simp
  show ?thesis
    unfolding True
    by (rule add_field_appends [OF scaled_keys_plain(1,2) scaled_keys_kept(1) scale_scaled(1)
          remap_spend k assms(3)])
next
  case False
  with assms(1) have r: "bare = ''revenue''" by simp
  with assms(2) have k: "lower k = ''revenue_cents''" by simp
  show ?thesis
    unfolding r
    by (rule add_field_appends [OF scaled_keys_plain(5,6) scaled_keys_kept(3) scale_scaled(3)
          remap_revenue k assms(3)])
qed

lemma scaled_micros:
  assumes "bare \<in> {''spend'', ''revenue''}" and "lower k = bare @ ''_micros''"
    and "coerce_number v = Some num"
  shows "add_field keep date_iso ks acc (k, v) = append_value acc date_iso bare (num / 1000000)"
proof (cases "bare = ''spend''")
  case True
  with assms(2) have k: "lower k = ''spend_micros''" by simp
  show ?thesis
    unfolding True
    by (rule add_field_appends [OF scaled_keys_plain(3,4) scaled_keys_kept(2) scale_scaled(2)
          remap_spend k assms(3)])
next
  case False
  with assms(1) have r: "bare = ''revenue''" by simp
  with assms(2) have k: "lower k = ''revenue_micros''" by simp
  show ?thesis
    unfolding r
    by (rule add_field_appends [OF scaled_keys_plain(7,8) scaled_keys_kept(4) scale_scaled(4)
          remap_revenue k assms(3)])
qed

text \<open>
  Claim C3.  In a record that has, for \<^verbatim>\<open>spend\<close> or \<^verbatim>\<open>revenue\<close>, a sibling key ending in
  \<^verbatim>\<open>_cents\<close> or \<^verbatim>\<open>_micros\<close>, every bare field of that name adds nothing: the record adds
  what it would add without its bare fields.  A numeric sibling adds its value divided by
  100, respectively 1000000, to the metric of the bare name.
\<close>

theorem scaled_sibling_precedence:
  "bare \<in> {''spend'', ''revenue''}
   \<and> (bare @ ''_cents'' \<in> lower_keys d \<or> bare @ ''_micros'' \<in> lower_keys d) \<longrightarrow>
     (\<forall>k v. lower k = bare \<longrightarrow> add_field keep date_iso (lower_keys d) acc (k, v) = acc)
     \<and> foldl (add_field keep date_iso (lower_keys d)) acc d
         = foldl (add_field keep date_iso (lower_keys d)) acc
             (filter (\<lambda>kv. lower (fst kv) \<noteq> bare) d)
     \<and> (\<forall>k v num. lower k = bare @ ''_cents'' \<and> coerce_number v = Some num \<longrightarrow>
           add_field keep date_iso (lower_keys d) acc (k, v)
             = append_value acc date_iso bare (num / 100))
     \<and> (\<forall>k v num. lower k = bare @ ''_micros'' \<and> coerce_number v = Some num \<longrightarrow>
           add_field keep date_iso (lower_keys d) acc (k, v)
             = append_value acc date_iso bare (num / 1000000))"
proof (intro impI, elim conjE)
  assume b: "bare \<in> {''spend'', ''revenue''}"
    and s: "bare @ ''_cents'' \<in> lower_keys d \<or> bare @ ''_micros'' \<in> lower_keys d"
  have sup: "superseded (lower_keys d) bare" using superseded_bare [OF b s] .
  have 1: "\<forall>k v. lower k = bare \<longrightarrow> add_field keep date_iso (lower_keys d) acc (k, v) = acc"
    using sup superseded_add_field by blast
  have 2: "foldl (add_field keep date_iso (lower_keys d)) acc d
         = foldl (add_field keep date_iso (lower_keys d)) acc
             (filter (\<lambda>kv. lower (fst kv) \<noteq> bare) d)"
    using foldl_drop_superseded [OF sup] .
  have 3: "\<forall>k v num. lower k = bare @ ''_cents'' \<and> coerce_number v = Some num \<longrightarrow>
           add_field keep date_iso (lower_keys d) acc (k, v)
             = append_value acc date_iso bare (num / 100)"
    using scaled_cents [OF b] by blast
  have 4: "\<forall>k v num. lower k = bare @ ''_micros'' \<and> coerce_number v = Some num \<longrightarrow>
           add_field keep date_iso (lower_keys d) acc (k, v)
             = append_value acc date_iso bare (num / 1000000)"
    using scaled_micros [OF b] by blast
  show "(\<forall>k v. lower k = bare \<longrightarrow> add_field keep date_iso (lower_keys d) acc (k, v) = acc)
     \<and> foldl (add_field keep date_iso (lower_keys d)) acc d
         = foldl (add_field keep date_iso (lower_keys d)) acc
             (filter (\<lambda>kv. lower (fst kv) \<noteq> bare) d)
     \<and> (\<forall>k v num. lower k = bare @ ''_cents'' \<and> coerce_number v = Some num \<longrightarrow>
           add_field keep date_iso (lower_keys d) acc (k, v)
             = append_value acc date_iso bare (num / 100))
     \<and> (\<forall>k v num. lower k = bare @ ''_micros'' \<and> coerce_number v = Some num \<longrightarrow>
           add_field keep date_iso (lower_keys d) acc (k, v)
             = append_value acc date_iso bare (num / 1000000))"
    using 1 2 3 4 by (intro conjI)
qed

text \<open>The record \<^verbatim>\<open>{"date": "2024-03-05", "spend_cents": 500, "spend": 999}\<close> adds the single
  spend value 5 to its date and nothing else.\<close>

theorem scaled_sibling_precedence_witness:
  "''spend'' \<in> {''spend'', ''revenue''}
   \<and> ''spend'' @ ''_cents''
        \<in> lower_keys [(''date'', JStr ''2024-03-05''), (''spend_cents'', JInt 500), (''spend'', JInt 999)]
   \<and> handle_record \<lparr>skip_range_totals = True, keep_raw = False, tz_offset = 0,
                      aggregate_policy = ''sum'', derived_flag = False\<rparr> Map.empty
        [(''date'', JStr ''2024-03-05''), (''spend_cents'', JInt 500), (''spend'', JInt 999)]
       = append_value Map.empty ''2024-03-05'' ''spend'' 5
   \<and> acc_get (append_value Map.empty ''2024-03-05'' ''spend'' 5) ''2024-03-05'' ''spend'' = [5]"
proof -
  let ?d = "[(''date'', JStr ''2024-03-05''), (''spend_cents'', JInt 500), (''spend'', JInt 999)]"
  let ?o = "\<lparr>skip_range_totals = True, keep_raw = False, tz_offset = 0,
             aggregate_policy = ''sum'', derived_flag = False\<rparr>"
  have h1: "''spend'' \<in> {''spend'', ''revenue''}" by simp
  have h2: "''spend'' @ ''_cents'' \<in> lower_keys ?d" by code_simp
  have nr: "\<not> looks_like_range_total ?d" by code_simp
  have dv: "norm_date 0 (find_date_val ?d) = Some ''2024-03-05''" by code_simp
  have lk: "lower ''date'' = ''date''" "lower ''spend_cents'' = ''spend'' @ ''_cents''"
    "lower ''spend'' = ''spend''"
    by code_simp+
  have dk: "add_field False ''2024-03-05'' (lower_keys ?d) Map.empty (''date'', JStr ''2024-03-05'')
            = Map.empty"
    by (simp add: add_field_def lk DATE_KEYS_def)
  note t = scaled_sibling_precedence [of "''spend''" ?d False "''2024-03-05''"]
  have sc: "add_field False ''2024-03-05'' (lower_keys ?d) Map.empty (''spend_cents'', JInt 500)
            = append_value Map.empty ''2024-03-05'' ''spend'' (500 / 100)"
    using t [of Map.empty] h1 h2 lk(2) by simp
  have sp: "add_field False ''2024-03-05'' (lower_keys ?d)
              (append_value Map.empty ''2024-03-05'' ''spend'' (500 / 100)) (''spend'', JInt 999)
            = append_value Map.empty ''2024-03-05'' ''spend'' (500 / 100)"
    using t [of "append_value Map.empty ''2024-03-05'' ''spend'' (500 / 100)"] h1 h2 lk(3) by simp
  have ar: "accumulate_record 0 False Map.empty ?d
            = foldl (add_field False ''2024-03-05'' (lower_keys ?d)) Map.empty ?d"
    unfolding accumulate_record_def dv by simp
  have fl: "foldl (add_field False ''2024-03-05'' (lower_keys ?d)) Map.empty ?d
            = append_value Map.empty ''2024-03-05'' ''spend'' (500 / 100)"
    by (simp only: foldl_Cons foldl_Nil dk sc sp)
  have hr: "handle_record ?o Map.empty ?d = accumulate_record 0 False Map.empty ?d"
    using nr by (simp add: handle_record_def)
  have "handle_record ?o Map.empty ?d = append_value Map.empty ''2024-03-05'' ''spend'' 5"
    unfolding hr ar fl by simp
  moreover have "acc_get (append_value Map.empty ''2024-03-05'' ''spend'' 5) ''2024-03-05'' ''spend'' = [5]"
    unfolding acc_get_append_value by (simp add: acc_get_def)
  ultimately show ?thesis using h1 h2 by simp
qed

section \<open>Properties of the tree walker\<close>

lemma iter_dicts_nested: "nested_in v w \<Longrightarrow> set (iter_dicts v) \<subseteq> set (iter_dicts w)"
proof (induction rule: nested_in.induct)
  case (nested_self v)
  show ?case by simp
next
  case (nested_arr v x xs)
  then show ?case by auto
next
  case (nested_obj v x k kvs)
  then show ?case by force
qed

lemma max_bound: "foldr max (map f xs) 0 \<le> (n::nat) \<longleftrightarrow> (\<forall>x \<in> set xs. f x \<le> n)"
  by (induction xs) auto

text \<open>A walk that fits into the allowed frames yields what the unbounded generator yields;
  a walk that does not fit raises.\<close>

lemma iter_lim_fits:
  "(depth x \<le> n \<longrightarrow> iter_dicts_lim n x = (iter_dicts x, False))"
  "((\<forall>x \<in> set xs. depth x \<le> n) \<longrightarrow> iter_list_lim n xs = (concat (map iter_dicts xs), False))"
proof (induction n x and n xs rule: iter_dicts_lim_iter_list_lim.induct)
  case (1 obj)
  show ?case by (cases obj) simp_all
next
  case (2 n kvs)
  then show ?case by (simp add: max_bound comp_def)
next
  case (3 n xs)
  then show ?case by (simp add: max_bound)
next
  case (10 n x xs)
  show ?case
  proof (intro impI)
    assume a: "\<forall>y \<in> set (x # xs). depth y \<le> n"
    then have dx: "depth x \<le> n" and dxs: "\<forall>y \<in> set xs. depth y \<le> n" by simp_all
    from 10(1) dx have e: "iter_dicts_lim n x = (iter_dicts x, False)" by simp
    from 10(2) [OF e [symmetric] refl] dxs
    have "iter_list_lim n xs = (concat (map iter_dicts xs), False)" by simp
    with e show "iter_list_lim n (x # xs) = (concat (map iter_dicts (x # xs)), False)" by simp
  qed
qed simp_all

lemma iter_lim_raises:
  "(n < depth x \<longrightarrow> snd (iter_dicts_lim n x))"
  "((\<exists>x \<in> set xs. n < depth x) \<longrightarrow> snd (iter_list_lim n xs))"
proof (induction n x and n xs rule: iter_dicts_lim_iter_list_lim.induct)
  case (2 n kvs)
  have "n < foldr max (map (\<lambda>kv. depth (snd kv)) kvs) 0 \<longleftrightarrow> (\<exists>x \<in> set (map snd kvs). n < depth x)"
    using max_bound [of "\<lambda>kv. depth (snd kv)" kvs n] by (auto simp add: not_le [symmetric])
  with 2 show ?case by (auto split: prod.splits)
next
  case (3 n xs)
  have "n < foldr max (map depth xs) 0 \<longleftrightarrow> (\<exists>x \<in> set xs. n < depth x)"
    using max_bound [of depth xs n] by (auto simp add: not_le [symmetric])
  with 3 show ?case by simp
next
  case (10 n x xs)
  show ?case
  proof (cases "iter_dicts_lim n x")
    case (Pair ds raised)
    show ?thesis
    proof (cases raised)
      case True
      with Pair show ?thesis by simp
    next
      case False
      with Pair 10(1) have nx: "\<not> n < depth x" by auto
      have r: "raised = False" using False by simp
      from 10(2) [OF Pair [symmetric] r] Pair False nx show ?thesis
        by (auto split: prod.splits)
    qed
  qed
qed simp_all

text \<open>
  Claim C9.  Every object nested in a record is among the records the walker yields for it.
  The records that follow a record in the walk are the walks of its values, and they are
  handled one by one by the same loop body: when the record is suppressed as a range total
  the accumulator they start from is the one before the record, otherwise it is the one the
  record left.  In the file loop, a suppressed root record therefore contributes exactly what
  the records below it contribute.
\<close>

theorem suppression_spares_nested_records:
  "(nested_in (JObj c) (JObj kvs) \<longrightarrow> c \<in> set (iter_dicts (JObj kvs)))
   \<and> foldl (handle_record opts) acc (iter_dicts (JObj kvs))
       = foldl (handle_record opts) (handle_record opts acc kvs)
           (concat (map (\<lambda>kv. iter_dicts (snd kv)) kvs))
   \<and> (skip_range_totals opts \<and> looks_like_range_total kvs \<longrightarrow>
        foldl (handle_record opts) acc (iter_dicts (JObj kvs))
          = foldl (handle_record opts) acc (concat (map (\<lambda>kv. iter_dicts (snd kv)) kvs)))
   \<and> (skip_range_totals opts \<and> looks_like_range_total kvs \<and> depth (JObj kvs) \<le> limit \<longrightarrow>
        harvest_doc opts limit acc (JObj kvs)
          = Inr (foldl (handle_record opts) acc (concat (map (\<lambda>kv. iter_dicts (snd kv)) kvs))))"
proof -
  have 1: "nested_in (JObj c) (JObj kvs) \<longrightarrow> c \<in> set (iter_dicts (JObj kvs))"
  proof
    assume "nested_in (JObj c) (JObj kvs)"
    from iter_dicts_nested [OF this] show "c \<in> set (iter_dicts (JObj kvs))" by auto
  qed
  have 2: "foldl (handle_record opts) acc (iter_dicts (JObj kvs))
       = foldl (handle_record opts) (handle_record opts acc kvs)
           (concat (map (\<lambda>kv. iter_dicts (snd kv)) kvs))"
    by simp
  have 3: "skip_range_totals opts \<and> looks_like_range_total kvs \<longrightarrow>
        foldl (handle_record opts) acc (iter_dicts (JObj kvs))
          = foldl (handle_record opts) acc (concat (map (\<lambda>kv. iter_dicts (snd kv)) kvs))"
    by (simp add: handle_record_def)
  have 4: "skip_range_totals opts \<and> looks_like_range_total kvs \<and> depth (JObj kvs) \<le> limit \<longrightarrow>
        harvest_doc opts limit acc (JObj kvs)
          = Inr (foldl (handle_record opts) acc (concat (map (\<lambda>kv. iter_dicts (snd kv)) kvs)))"
  proof (intro impI, elim conjE)
    assume s: "skip_range_totals opts" and l: "looks_like_range_total kvs"
      and d: "depth (JObj kvs) \<le> limit"
    from iter_lim_fits(1) [of "JObj kvs" limit] d
    have "iter_dicts_lim limit (JObj kvs) = (iter_dicts (JObj kvs), False)" by blast
    then have "harvest_doc opts limit acc (JObj kvs)
                 = Inr (foldl (handle_record opts) acc (iter_dicts (JObj kvs)))"
      by (simp add: harvest_doc_def)
    with 3 s l show "harvest_doc opts limit acc (JObj kvs)
          = Inr (foldl (handle_record opts) acc (concat (map (\<lambda>kv. iter_dicts (snd kv)) kvs)))"
      by simp
  qed
  from 1 2 3 4 show ?thesis by (intro conjI)
qed

text \<open>The document \<^verbatim>\<open>{"date": "2024-03-01", "total": {"date": "2024-03-01", "clicks": 7},
  "impressions": 500}\<close>: the root is suppressed and adds no views, the record under
  \<^verbatim>\<open>total\<close> is yielded and adds its clicks.\<close>

theorem suppression_spares_nested_records_witness:
  "nested_in (JObj [(''date'', JStr ''2024-03-01''), (''clicks'', JInt 7)])
      (JObj [(''date'', JStr ''2024-03-01''),
             (''total'', JObj [(''date'', JStr ''2024-03-01''), (''clicks'', JInt 7)]),
             (''impressions'', JInt 500)])
   \<and> [(''date'', JStr ''2024-03-01''), (''clicks'', JInt 7)]
       \<in> set (iter_dicts (JObj [(''date'', JStr ''2024-03-01''),
             (''total'', JObj [(''date'', JStr ''2024-03-01''), (''clicks'', JInt 7)]),
             (''impressions'', JInt 500)]))
   \<and> looks_like_range_total [(''date'', JStr ''2024-03-01''),
             (''total'', JObj [(''date'', JStr ''2024-03-01''), (''clicks'', JInt 7)]),
             (''impressions'', JInt 500)]
   \<and> (\<exists>a. harvest_doc \<lparr>skip_range_totals = True, keep_raw = False, tz_offset = 0,
                         aggregate_policy = ''sum'', derived_flag = False\<rparr> 1000 Map.empty
              (JObj [(''date'', JStr ''2024-03-01''),
                     (''total'', JObj [(''date'', JStr ''2024-03-01''), (''clicks'', JInt 7)]),
                     (''impressions'', JInt 500)]) = Inr a
            \<and> acc_get a ''2024-03-01'' ''clicks'' = [7]
            \<and> acc_get a ''2024-03-01'' ''views'' = [])"
proof -
  let ?c = "[(''date'', JStr ''2024-03-01''), (''clicks'', JInt 7)]"
  let ?kvs = "[(''date'', JStr ''2024-03-01''), (''total'', JObj ?c), (''impressions'', JInt 500)]"
  let ?o = "\<lparr>skip_range_totals = True, keep_raw = False, tz_offset = 0,
             aggregate_policy = ''sum'', derived_flag = False\<rparr>"
  note t = suppression_spares_nested_records [of ?c ?kvs ?o Map.empty 1000]
  have n: "nested_in (JObj ?c) (JObj ?kvs)"
    by (rule nested_obj [OF nested_self, of "''total''"]) simp
  with t have m: "?c \<in> set (iter_dicts (JObj ?kvs))" by blast
  have l: "looks_like_range_total ?kvs" by code_simp
  have d: "depth (JObj ?kvs) \<le> 1000" by simp
  have s: "skip_range_totals ?o" by simp
  from t s l d
  have h: "harvest_doc ?o 1000 Map.empty (JObj ?kvs)
             = Inr (foldl (handle_record ?o) Map.empty
                      (concat (map (\<lambda>kv. iter_dicts (snd kv)) ?kvs)))"
    by blast
  have v: "acc_get (foldl (handle_record ?o) Map.empty
                      (concat (map (\<lambda>kv. iter_dicts (snd kv)) ?kvs))) ''2024-03-01'' ''clicks'' = [7]
         \<and> acc_get (foldl (handle_record ?o) Map.empty
                      (concat (map (\<lambda>kv. iter_dicts (snd kv)) ?kvs))) ''2024-03-01'' ''views'' = []"
    by code_simp
  from n m l h v show ?thesis by simp
qed

text \<open>
  Claim C5, against the code.  When the walk of a parsed document needs more frames than the
  interpreter allows, the file loop ends with the \<^verbatim>\<open>RecursionError\<close>: the remaining files are
  not read and no accumulator is returned.
\<close>

theorem recursion_error_aborts_run:
  "limit < depth data \<longrightarrow>
     harvest_doc opts limit acc data = Inl RecursionError
     \<and> harvest_files opts limit acc (Some data # fs) = Inl RecursionError"
proof
  assume "limit < depth data"
  with iter_lim_raises(1) [of limit data] have "snd (iter_dicts_lim limit data)" by blast
  then have "harvest_doc opts limit acc data = Inl RecursionError"
    by (cases "iter_dicts_lim limit data") (simp add: harvest_doc_def)
  then show "harvest_doc opts limit acc data = Inl RecursionError
     \<and> harvest_files opts limit acc (Some data # fs) = Inl RecursionError"
    by simp
qed

text \<open>With three frames allowed, a document of four nested arrays ends the run although the
  next file, taken alone, yields a dated value.\<close>

theorem recursion_error_aborts_run_witness:
  "3 < depth (JArr [JArr [JArr [JArr []]]])
   \<and> harvest_files \<lparr>skip_range_totals = True, keep_raw = False, tz_offset = 0,
                      aggregate_policy = ''sum'', derived_flag = False\<rparr> 3 Map.empty
        [Some (JArr [JArr [JArr [JArr []]]]),
         Some (JArr [JObj [(''date'', JStr ''2024-03-01''), (''clicks'', JInt 10)]])]
       = Inl RecursionError
   \<and> (\<exists>a. harvest_files \<lparr>skip_range_totals = True, keep_raw = False, tz_offset = 0,
                      aggregate_policy = ''sum'', derived_flag = False\<rparr> 3 Map.empty
        [Some (JArr [JObj [(''date'', JStr ''2024-03-01''), (''clicks'', JInt 10)]])] = Inr a
        \<and> acc_get a ''2024-03-01'' ''clicks'' = [10])"
proof -
  let ?o = "\<lparr>skip_range_totals = True, keep_raw = False, tz_offset = 0,
             aggregate_policy = ''sum'', derived_flag = False\<rparr>"
  let ?deep = "JArr [JArr [JArr [JArr []]]]"
  let ?ok = "JArr [JObj [(''date'', JStr ''2024-03-01''), (''clicks'', JInt 10)]]"
  have d: "3 < depth ?deep" by simp
  from recursion_error_aborts_run [of 3 ?deep ?o Map.empty "[Some ?ok]"] d
  have r: "harvest_files ?o 3 Map.empty [Some ?deep, Some ?ok] = Inl RecursionError" by blast
  have f: "depth ?ok \<le> 3" by simp
  from iter_lim_fits(1) [of ?ok 3] f
  have w: "iter_dicts_lim 3 ?ok = (iter_dicts ?ok, False)" by blast
  have h: "harvest_files ?o 3 Map.empty [Some ?ok]
             = Inr (foldl (handle_record ?o) Map.empty (iter_dicts ?ok))"
    by (simp add: harvest_doc_def w del: iter_dicts.simps)
  have v: "acc_get (foldl (handle_record ?o) Map.empty (iter_dicts ?ok)) ''2024-03-01'' ''clicks'' = [10]"
    by code_simp
  from d r h v show ?thesis by simp
qed

section \<open>Properties of the calendar\<close>

lemma div_parts:
  fixes a b c e :: int
  assumes "0 \<le> b" "b \<le> 3" "0 \<le> c" "c \<le> 24" "0 \<le> e" "e \<le> 3"
  shows "(a * 400 + b * 100 + c * 4 + e) div 4 = a * 100 + b * 25 + c"
    and "(a * 400 + b * 100 + c * 4 + e) div 100 = a * 4 + b"
    and "(a * 400 + b * 100 + c * 4 + e) div 400 = a"
proof -
  have "a * 400 + b * 100 + c * 4 + e = 4 * (a * 100 + b * 25 + c) + e" by simp
  moreover have "(4 * (a * 100 + b * 25 + c) + e) div 4 = a * 100 + b * 25 + c"
    using assms by simp
  ultimately show "(a * 400 + b * 100 + c * 4 + e) div 4 = a * 100 + b * 25 + c" by simp
  have "a * 400 + b * 100 + c * 4 + e = 100 * (a * 4 + b) + (c * 4 + e)" by simp
  moreover have "(100 * (a * 4 + b) + (c * 4 + e)) div 100 = a * 4 + b"
    using assms by simp
  ultimately show "(a * 400 + b * 100 + c * 4 + e) div 100 = a * 4 + b" by simp
  have "a * 400 + b * 100 + c * 4 + e = 400 * a + (b * 100 + c * 4 + e)" by simp
  moreover have "(400 * a + (b * 100 + c * 4 + e)) div 400 = a"
    using assms by simp
  ultimately show "(a * 400 + b * 100 + c * 4 + e) div 400 = a" by simp
qed

lemma days_before_year_parts:
  fixes a b c e :: int
  assumes "0 \<le> b" "b \<le> 3" "0 \<le> c" "c \<le> 24" "0 \<le> e" "e \<le> 3"
  shows "days_before_year (a * 400 + 1 + b * 100 + c * 4 + e)
           = 146097 * a + 36524 * b + 1461 * c + 365 * e"
proof -
  have h: "a * 400 + 1 + b * 100 + c * 4 + e - 1 = a * 400 + b * 100 + c * 4 + e" by simp
  show ?thesis
    unfolding days_before_year_def Let_def h div_parts [OF assms] by simp
qed

lemma is_leap_parts:
  fixes a b c e :: int
  assumes "0 \<le> b" "b \<le> 3" "0 \<le> c" "c \<le> 24" "0 \<le> e" "e \<le> 3"
  shows "is_leap (a * 400 + 1 + b * 100 + c * 4 + e) \<longleftrightarrow> (e = 3 \<and> (c \<noteq> 24 \<or> b = 3))"
proof -
  let ?y = "a * 400 + 1 + b * 100 + c * 4 + e"
  have m4: "?y mod 4 = (1 + e) mod 4"
  proof -
    have "?y = (1 + e) + 4 * (a * 100 + b * 25 + c)" by simp
    then show ?thesis by (simp only: mod_mult_self2)
  qed
  have m100: "?y mod 100 = (1 + c * 4 + e) mod 100"
  proof -
    have "?y = (1 + c * 4 + e) + 100 * (a * 4 + b)" by simp
    then show ?thesis by (simp only: mod_mult_self2)
  qed
  have m400: "?y mod 400 = (1 + b * 100 + c * 4 + e) mod 400"
  proof -
    have "?y = (1 + b * 100 + c * 4 + e) + 400 * a" by simp
    then show ?thesis by (simp only: mod_mult_self2)
  qed
  have e4: "(1 + e) mod 4 = 0 \<longleftrightarrow> e = 3" using assms by presburger
  have e100: "e = 3 \<Longrightarrow> ((1 + c * 4 + e) mod 100 = 0 \<longleftrightarrow> c = 24)" using assms by presburger
  have e400: "e = 3 \<Longrightarrow> c = 24 \<Longrightarrow> ((1 + b * 100 + c * 4 + e) mod 400 = 0 \<longleftrightarrow> b = 3)"
    using assms by presburger
  show ?thesis
    unfolding is_leap_def m4 m100 m400 using e4 e100 e400 by auto
qed


lemma month_estimate:
  fixes r :: int
  assumes "0 \<le> r" "r \<le> 364"
  shows "1 \<le> (r + 50) div 32 \<and> (r + 50) div 32 \<le> 12"
  using assms by presburger

lemma month_back:
  fixes m :: int
  assumes "2 \<le> m" "m \<le> 12"
  shows "DAYS_BEFORE_MONTH ! nat (m - 1) + (if m - 1 > 2 \<and> L then 1 else 0)
         = DAYS_BEFORE_MONTH ! nat m + (if m > 2 \<and> L then 1 else 0)
           - (DAYS_IN_MONTH ! nat (m - 1) + (if m - 1 = 2 \<and> L then 1 else 0))"
proof -
  from assms have "m \<in> {2, 3, 4, 5, 6, 7, 8, 9, 10, 11, 12}" by simp presburger
  then show ?thesis
    by (elim insertE emptyE) (simp_all add: DAYS_BEFORE_MONTH_def DAYS_IN_MONTH_def)
qed

lemma month_first: "DAYS_BEFORE_MONTH ! nat 1 + (if (1::int) > 2 \<and> L then 1 else 0) = 0"
  by (simp add: DAYS_BEFORE_MONTH_def)

lemma ymd2ord_of_days:
  fixes r :: int
  assumes "0 \<le> r" "r \<le> 364" and lp: "is_leap y = L"
  shows "(case (let month = (r + 50) div 32;
                  preceding = DAYS_BEFORE_MONTH ! nat month + (if month > 2 \<and> L then 1 else 0)
              in if preceding > r
                 then (let month' = month - 1;
                           preceding' = preceding - (DAYS_IN_MONTH ! nat month'
                                          + (if month' = 2 \<and> L then 1 else 0))
                       in (y, month', r - preceding' + 1))
                 else (y, month, r - preceding + 1)) of
           (y', m', d') \<Rightarrow> ymd2ord y' m' d') = days_before_year y + r + 1"
proof -
  define m where "m = (r + 50) div 32"
  define p where "p = DAYS_BEFORE_MONTH ! nat m + (if m > 2 \<and> L then 1 else 0)"
  have mb: "1 \<le> m" "m \<le> 12" using month_estimate [OF assms(1,2)] by (simp_all add: m_def)
  show ?thesis
  proof (cases "p > r")
    case True
    have "m \<noteq> 1"
    proof
      assume "m = 1"
      then have "p = 0" using month_first [of L] by (simp add: p_def)
      with True assms(1) show False by simp
    qed
    with mb have m2: "2 \<le> m" by simp
    from month_back [OF m2 mb(2), of L]
    have "days_before_month y (m - 1) = p - (DAYS_IN_MONTH ! nat (m - 1) + (if m - 1 = 2 \<and> L then 1 else 0))"
      by (simp add: days_before_month_def lp p_def)
    with True show ?thesis
      by (simp add: Let_def ymd2ord_def m_def [symmetric] p_def [symmetric])
  next
    case False
    have "days_before_month y m = p" by (simp add: days_before_month_def lp p_def)
    with False show ?thesis
      by (simp add: Let_def ymd2ord_def m_def [symmetric] p_def [symmetric])
  qed
qed


text \<open>The day count of the date that \<^verbatim>\<open>date.fromordinal\<close> gives is the ordinal again.\<close>

lemma ymd2ord_ord2ymd: "(case ord2ymd n of (y, m, d) \<Rightarrow> ymd2ord y m d) = n"
proof -
  define a where "a = (n - 1) div 146097"
  define r1 where "r1 = (n - 1) mod 146097"
  define b where "b = r1 div 36524"
  define r2 where "r2 = r1 mod 36524"
  define c where "c = r2 div 1461"
  define r3 where "r3 = r2 mod 1461"
  define e where "e = r3 div 365"
  define r4 where "r4 = r3 mod 365"
  have d1: "n - 1 = 146097 * a + r1" "0 \<le> r1" "r1 < 146097"
    by (simp_all add: a_def r1_def)
  have d2: "r1 = 36524 * b + r2" "0 \<le> r2" "r2 < 36524"
    by (simp_all add: b_def r2_def)
  have d3: "r2 = 1461 * c + r3" "0 \<le> r3" "r3 < 1461"
    by (simp_all add: c_def r3_def)
  have d4: "r3 = 365 * e + r4" "0 \<le> r4" "r4 < 365"
    by (simp_all add: e_def r4_def)
  have bb: "0 \<le> b" "b \<le> 4" using d1 d2 by arith+
  have cb: "0 \<le> c" "c \<le> 24" using d2 d3 by arith+
  have eb: "0 \<le> e" "e \<le> 4" using d3 d4 by arith+
  have total: "n - 1 = 146097 * a + 36524 * b + 1461 * c + 365 * e + r4"
    using d1 d2 d3 d4 by simp
  show ?thesis
  proof (cases "e = 4 \<or> b = 4")
    case True
    have o: "ord2ymd n = (a * 400 + 1 + b * 100 + c * 4 + e - 1, 12, 31)"
      using True
      by (simp add: ord2ymd_def Let_def r1_def [symmetric] a_def [symmetric]
            r2_def [symmetric] b_def [symmetric] r3_def [symmetric] c_def [symmetric]
            r4_def [symmetric] e_def [symmetric])
    show ?thesis
    proof (cases "b = 4")
      case True
      with d1 d2 have "r2 = 0" by arith
      with d3 d4 cb eb have z: "c = 0" "e = 0" "r4 = 0" by arith+
      have y: "a * 400 + 1 + b * 100 + c * 4 + e - 1 = a * 400 + 1 + 3 * 100 + 24 * 4 + 3"
        using True z by simp
      have dby: "days_before_year (a * 400 + 1 + 3 * 100 + 24 * 4 + 3)
                   = 146097 * a + 36524 * 3 + 1461 * 24 + 365 * 3"
        by (rule days_before_year_parts) simp_all
      have lp: "is_leap (a * 400 + 1 + 3 * 100 + 24 * 4 + 3)"
        using is_leap_parts [of 3 24 3 a] by simp
      have "ymd2ord (a * 400 + 1 + 3 * 100 + 24 * 4 + 3) 12 31 = n"
        unfolding ymd2ord_def days_before_month_def dby
        using lp total True z by (simp add: DAYS_BEFORE_MONTH_def)
      then show ?thesis unfolding o y by simp
    next
      case False
      with \<open>e = 4 \<or> b = 4\<close> have e4: "e = 4" by simp
      from False bb have b3: "b \<le> 3" by simp
      from e4 d3 d4 d2 have c23: "c \<le> 23" and r0: "r4 = 0" by arith+
      have y: "a * 400 + 1 + b * 100 + c * 4 + e - 1 = a * 400 + 1 + b * 100 + c * 4 + 3"
        using e4 by simp
      have dby: "days_before_year (a * 400 + 1 + b * 100 + c * 4 + 3)
                   = 146097 * a + 36524 * b + 1461 * c + 365 * 3"
        by (rule days_before_year_parts) (use bb b3 cb c23 in simp_all)
      have lp: "is_leap (a * 400 + 1 + b * 100 + c * 4 + 3)"
        using is_leap_parts [of b c 3 a] bb b3 cb c23 by simp
      have "ymd2ord (a * 400 + 1 + b * 100 + c * 4 + 3) 12 31 = n"
        unfolding ymd2ord_def days_before_month_def dby
        using lp total e4 r0 by (simp add: DAYS_BEFORE_MONTH_def)
      then show ?thesis unfolding o y by simp
    qed
  next
    case False
    with bb eb have b3: "b \<le> 3" and e3: "e \<le> 3" by simp_all
    define L where "L = (e = 3 \<and> (c \<noteq> 24 \<or> b = 3))"
    define yr where "yr = a * 400 + 1 + b * 100 + c * 4 + e"
    have o: "ord2ymd n =
       (if DAYS_BEFORE_MONTH ! nat ((r4 + 50) div 32) + (if (r4 + 50) div 32 > 2 \<and> L then 1 else 0) > r4
        then (yr, (r4 + 50) div 32 - 1,
              r4 - (DAYS_BEFORE_MONTH ! nat ((r4 + 50) div 32)
                      + (if (r4 + 50) div 32 > 2 \<and> L then 1 else 0)
                    - (DAYS_IN_MONTH ! nat ((r4 + 50) div 32 - 1)
                         + (if (r4 + 50) div 32 - 1 = 2 \<and> L then 1 else 0))) + 1)
        else (yr, (r4 + 50) div 32,
              r4 - (DAYS_BEFORE_MONTH ! nat ((r4 + 50) div 32)
                      + (if (r4 + 50) div 32 > 2 \<and> L then 1 else 0)) + 1))"
      using False
      by (simp only: ord2ymd_def Let_def r1_def [symmetric] a_def [symmetric]
            r2_def [symmetric] b_def [symmetric] r3_def [symmetric] c_def [symmetric]
            r4_def [symmetric] e_def [symmetric] L_def [symmetric] yr_def [symmetric]
            if_False)
    have lp: "is_leap yr = L"
      unfolding yr_def L_def by (rule is_leap_parts) (use bb b3 cb eb e3 in simp_all)
    have dby: "days_before_year yr = 146097 * a + 36524 * b + 1461 * c + 365 * e"
      unfolding yr_def by (rule days_before_year_parts) (use bb b3 cb eb e3 in simp_all)
    have r: "0 \<le> r4" "r4 \<le> 364" using d4 by simp_all
    from ymd2ord_of_days [OF r lp, unfolded Let_def]
    have "(case ord2ymd n of (y, m, d) \<Rightarrow> ymd2ord y m d) = days_before_year yr + r4 + 1"
      unfolding o .
    with dby total show ?thesis by simp
  qed
qed

section \<open>Properties of the date parser\<close>

lemma rmatch_prefix:
  "r' \<in> set (rmatch r s) \<Longrightarrow> \<exists>pre. s = pre @ r' \<and> (\<forall>c \<in> set pre. may_consume r c)"
proof (induction r arbitrary: s r')
  case (Sym P)
  then show ?case by (cases s) (auto split: if_splits)
next
  case Eps
  then show ?case by simp
next
  case (Seq a b)
  from Seq.prems obtain m where m: "m \<in> set (rmatch a s)" and r: "r' \<in> set (rmatch b m)"
    by auto
  from Seq.IH(1) [OF m] obtain p1 where p1: "s = p1 @ m" "\<forall>c \<in> set p1. may_consume a c" by blast
  from Seq.IH(2) [OF r] obtain p2 where p2: "m = p2 @ r'" "\<forall>c \<in> set p2. may_consume b c" by blast
  have "s = (p1 @ p2) @ r'" using p1 p2 by simp
  moreover have "\<forall>c \<in> set (p1 @ p2). may_consume (Seq a b) c" using p1 p2 by auto
  ultimately show ?case by blast
next
  case (Alt a b)
  from Alt.prems have "r' \<in> set (rmatch a s) \<or> r' \<in> set (rmatch b s)" by simp
  then show ?case
  proof
    assume "r' \<in> set (rmatch a s)"
    from Alt.IH(1) [OF this] show ?thesis by auto
  next
    assume "r' \<in> set (rmatch b s)"
    from Alt.IH(2) [OF this] show ?thesis by auto
  qed
next
  case (Opt a)
  from Opt.prems have "r' \<in> set (rmatch a s) \<or> r' = s" by auto
  then show ?case
  proof
    assume "r' \<in> set (rmatch a s)"
    from Opt.IH [OF this] show ?thesis by auto
  next
    assume "r' = s"
    then show ?thesis by simp
  qed
next
  case (Plus P)
  from Plus.prems have "\<exists>k. k \<le> length (takeWhile P s) \<and> r' = drop k s"
    by (auto simp del: upt_Suc simp add: less_Suc_eq_le)
  then obtain k where k: "k \<le> length (takeWhile P s)" and r: "r' = drop k s"
    by blast
  have "s = take k s @ r'" using r by simp
  moreover have "\<forall>c \<in> set (take k s). P c"
  proof
    fix c assume "c \<in> set (take k s)"
    then obtain i where i: "i < length (take k s)" "take k s ! i = c"
      by (auto simp add: in_set_conv_nth)
    then have ik: "i < length (takeWhile P s)" using k by simp
    from i have "c = s ! i" by simp
    also have "\<dots> = takeWhile P s ! i" using ik by (simp add: takeWhile_nth)
    finally have "c \<in> set (takeWhile P s)" using ik by simp
    then show "P c" by (rule set_takeWhileD [THEN conjunct2])
  qed
  ultimately show ?case by (metis may_consume.simps(6))
qed

lemma match_items_prefix:
  "(caps, rest) \<in> set (match_items its s) \<Longrightarrow>
     \<exists>pre. s = pre @ rest \<and> (\<forall>c \<in> set pre. \<exists>it \<in> set its. may_consume (snd it) c)"
proof (induction its arbitrary: s caps)
  case Nil
  then show ?case by simp
next
  case (Cons it its)
  from Cons.prems obtain m caps' where m: "m \<in> set (rmatch (snd it) s)"
    and c: "(caps', rest) \<in> set (match_items its m)"
    by auto
  from rmatch_prefix [OF m] obtain p1 where p1: "s = p1 @ m" "\<forall>c \<in> set p1. may_consume (snd it) c"
    by blast
  from Cons.IH [OF c] obtain p2 where p2: "m = p2 @ rest"
    "\<forall>c \<in> set p2. \<exists>it \<in> set its. may_consume (snd it) c" by blast
  have "s = (p1 @ p2) @ rest" using p1 p2 by simp
  moreover have "\<forall>c \<in> set (p1 @ p2). \<exists>i \<in> set (it # its). may_consume (snd i) c"
    using p1 p2 by auto
  ultimately show ?case by blast
qed

lemma match_items_literal:
  "(caps, rest) \<in> set (match_items its s) \<Longrightarrow> (n, Sym P) \<in> set its \<Longrightarrow> \<exists>c \<in> set s. P c"
proof (induction its arbitrary: s caps)
  case Nil
  then show ?case by simp
next
  case (Cons it its)
  from Cons.prems(1) obtain m caps' where m: "m \<in> set (rmatch (snd it) s)"
    and c: "(caps', rest) \<in> set (match_items its m)"
    by auto
  from rmatch_prefix [OF m] obtain p1 where p1: "s = p1 @ m" by blast
  show ?case
  proof (cases "it = (n, Sym P)")
    case True
    with m show ?thesis by (cases s) (auto split: if_splits)
  next
    case False
    with Cons.prems(2) have "(n, Sym P) \<in> set its" by simp
    from Cons.IH [OF c this] p1 show ?thesis by auto
  qed
qed

lemma pattern_date1:
  "pattern ''%Y-%m-%d'' = Some [(Some CHR ''Y'', rx_Y), (None, ich CHR ''-''), (Some CHR ''m'', rx_m),
      (None, ich CHR ''-''), (Some CHR ''d'', rx_d)]"
  by (simp add: directive_def is_space_def)

lemma pattern_date2:
  "pattern ''%m/%d/%Y'' = Some [(Some CHR ''m'', rx_m), (None, ich CHR ''/''), (Some CHR ''d'', rx_d),
      (None, ich CHR ''/''), (Some CHR ''Y'', rx_Y)]"
  by (simp add: directive_def is_space_def)

lemma pattern_dt1:
  "pattern ''%Y-%m-%dT%H:%M:%S%z'' = Some [(Some CHR ''Y'', rx_Y), (None, ich CHR ''-''),
      (Some CHR ''m'', rx_m), (None, ich CHR ''-''), (Some CHR ''d'', rx_d), (None, ich CHR ''T''),
      (Some CHR ''H'', rx_H), (None, ich CHR '':''), (Some CHR ''M'', rx_M), (None, ich CHR '':''),
      (Some CHR ''S'', rx_S), (Some CHR ''z'', rx_z)]"
  by (simp add: directive_def is_space_def)

lemma pattern_dt2:
  "pattern ''%Y-%m-%dT%H:%M:%S.%fZ'' = Some [(Some CHR ''Y'', rx_Y), (None, ich CHR ''-''),
      (Some CHR ''m'', rx_m), (None, ich CHR ''-''), (Some CHR ''d'', rx_d), (None, ich CHR ''T''),
      (Some CHR ''H'', rx_H), (None, ich CHR '':''), (Some CHR ''M'', rx_M), (None, ich CHR '':''),
      (Some CHR ''S'', rx_S), (None, ich CHR ''.''), (Some CHR ''f'', rx_f), (None, ich CHR ''Z'')]"
  by (simp add: directive_def is_space_def)

lemma pattern_dt3:
  "pattern ''%Y-%m-%dT%H:%M:%SZ'' = Some [(Some CHR ''Y'', rx_Y), (None, ich CHR ''-''),
      (Some CHR ''m'', rx_m), (None, ich CHR ''-''), (Some CHR ''d'', rx_d), (None, ich CHR ''T''),
      (Some CHR ''H'', rx_H), (None, ich CHR '':''), (Some CHR ''M'', rx_M), (None, ich CHR '':''),
      (Some CHR ''S'', rx_S), (None, ich CHR ''Z'')]"
  by (simp add: directive_def is_space_def)

lemma pattern_dt4:
  "pattern ''%Y-%m-%d %H:%M:%S'' = Some [(Some CHR ''Y'', rx_Y), (None, ich CHR ''-''),
      (Some CHR ''m'', rx_m), (None, ich CHR ''-''), (Some CHR ''d'', rx_d), (None, Plus is_space),
      (Some CHR ''H'', rx_H), (None, ich CHR '':''), (Some CHR ''M'', rx_M), (None, ich CHR '':''),
      (Some CHR ''S'', rx_S)]"
  by (simp add: directive_def is_space_def)


lemma lower_char_fixed:
  assumes "d \<in> {CHR '':'', CHR ''-'', CHR ''/''}"
  shows "lower_char c = lower_char d \<longleftrightarrow> c = d"
proof -
  have d: "lower_char d = d" "(of_char d :: int) \<in> {58, 45, 47}"
    using assms by (auto simp add: lower_char_def)
  have "lower_char c = d \<Longrightarrow> c = d"
  proof (rule ccontr)
    assume e: "lower_char c = d" and n: "c \<noteq> d"
    then have up: "(65 \<le> (of_char c :: int) \<and> (of_char c :: int) \<le> 90)
                 \<or> (192 \<le> (of_char c :: int) \<and> (of_char c :: int) \<le> 222 \<and> (of_char c :: int) \<noteq> 215)"
      and ch: "char_of ((of_char c :: int) + 32) = d"
      by (auto simp add: lower_char_def Let_def split: if_splits)
    from ch have "(of_char d :: int) = ((of_char c :: int) + 32) mod 256"
      by (metis of_char_of)
    with up d(2) show False by auto
  qed
  with d(1) show ?thesis by auto
qed

lemma date_items_no_colon:
  "\<forall>it \<in> set [(Some CHR ''Y'', rx_Y), (None, ich CHR ''-''), (Some CHR ''m'', rx_m),
      (None, ich CHR ''-''), (Some CHR ''d'', rx_d)]. \<not> may_consume (snd it) CHR '':''"
  "\<forall>it \<in> set [(Some CHR ''m'', rx_m), (None, ich CHR ''/''), (Some CHR ''d'', rx_d),
      (None, ich CHR ''/''), (Some CHR ''Y'', rx_Y)]. \<not> may_consume (snd it) CHR '':''"
  "\<forall>it \<in> set [(Some CHR ''m'', rx_m), (None, ich CHR ''/''), (Some CHR ''d'', rx_d),
      (None, ich CHR ''/''), (Some CHR ''Y'', rx_Y)]. \<not> may_consume (snd it) CHR ''-''"
  by code_simp+


lemma strptime_full_match:
  assumes "strptime s fmt = Some dt" and "pattern fmt = Some items"
  shows "\<exists>caps. (caps, []) \<in> set (match_items items s)"
proof (cases "match_items items s")
  case Nil
  with assms show ?thesis by (simp add: strptime_def)
next
  case (Cons a list)
  obtain caps rest where a: "a = (caps, rest)" by (cases a)
  with Cons assms have "rest = []" by (auto simp add: strptime_def split: if_splits)
  with Cons a show ?thesis by auto
qed

lemma strptime_literal:
  assumes "strptime s fmt = Some dt" and "pattern fmt = Some items"
    and "(None, ich d) \<in> set items" and "d \<in> {CHR '':'', CHR ''-'', CHR ''/''}"
  shows "d \<in> set s"
proof -
  from strptime_full_match [OF assms(1,2)] obtain caps
    where m: "(caps, []) \<in> set (match_items items s)" by blast
  from assms(3) have "(None, Sym (\<lambda>x. lower_char x = lower_char d)) \<in> set items"
    by (simp add: ich_def)
  from match_items_literal [OF m this] obtain c where "c \<in> set s" "lower_char c = lower_char d"
    by blast
  with lower_char_fixed [OF assms(4)] show ?thesis by simp
qed

lemma strptime_alphabet:
  assumes "strptime s fmt = Some dt" and "pattern fmt = Some items"
    and "\<forall>it \<in> set items. \<not> may_consume (snd it) d"
  shows "d \<notin> set s"
proof -
  from strptime_full_match [OF assms(1,2)] obtain caps
    where m: "(caps, []) \<in> set (match_items items s)" by blast
  from match_items_prefix [OF m]
  have "\<forall>c \<in> set s. \<exists>it \<in> set items. may_consume (snd it) c" by auto
  with assms(3) show ?thesis by blast
qed

lemma datetime_has_colon:
  assumes "strptime s f = Some dt" and "f \<in> set DATETIME_FORMATS"
  shows "CHR '':'' \<in> set s"
proof -
  from assms(2) consider "f = ''%Y-%m-%dT%H:%M:%S%z''" | "f = ''%Y-%m-%dT%H:%M:%S.%fZ''"
    | "f = ''%Y-%m-%dT%H:%M:%SZ''" | "f = ''%Y-%m-%d %H:%M:%S''"
    by (auto simp add: DATETIME_FORMATS_def)
  then show ?thesis
  proof cases
    case 1
    show ?thesis
      by (rule strptime_literal [OF assms(1) [unfolded 1] pattern_dt1]) simp_all
  next
    case 2
    show ?thesis
      by (rule strptime_literal [OF assms(1) [unfolded 2] pattern_dt2]) simp_all
  next
    case 3
    show ?thesis
      by (rule strptime_literal [OF assms(1) [unfolded 3] pattern_dt3]) simp_all
  next
    case 4
    show ?thesis
      by (rule strptime_literal [OF assms(1) [unfolded 4] pattern_dt4]) simp_all
  qed
qed

lemma date_has_no_colon:
  assumes "strptime s f = Some dt" and "f \<in> set DATE_FORMATS"
  shows "CHR '':'' \<notin> set s"
proof -
  from assms(2) consider "f = ''%Y-%m-%d''" | "f = ''%m/%d/%Y''"
    by (auto simp add: DATE_FORMATS_def)
  then show ?thesis
  proof cases
    case 1
    show ?thesis
      by (rule strptime_alphabet [OF assms(1) [unfolded 1] pattern_date1 date_items_no_colon(1)])
  next
    case 2
    show ?thesis
      by (rule strptime_alphabet [OF assms(1) [unfolded 2] pattern_date2 date_items_no_colon(2)])
  qed
qed

lemma try_datetime_none:
  "\<forall>f \<in> set fmts. strptime s f = None \<Longrightarrow> try_datetime tz s fmts = None"
  by (induction fmts) simp_all

text \<open>A text that one of the pure-date formats parses is parsed by none of the datetime
  formats, and by no other pure-date format.\<close>

lemma pure_date_skips_datetime:
  assumes "strptime s f = Some dt" and "f \<in> set DATE_FORMATS"
  shows "try_datetime tz s DATETIME_FORMATS = None"
proof (rule try_datetime_none, rule ballI)
  fix g assume g: "g \<in> set DATETIME_FORMATS"
  show "strptime s g = None"
  proof (cases "strptime s g")
    case None
    then show ?thesis .
  next
    case (Some dt')
    from datetime_has_colon [OF Some g] date_has_no_colon [OF assms] show ?thesis by simp
  qed
qed

lemma pure_date_result:
  assumes "strptime s f = Some dt" and "f \<in> set DATE_FORMATS"
  shows "try_date s DATE_FORMATS = Some (isoformat (year dt, month dt, day dt))"
proof -
  from assms(2) consider "f = ''%Y-%m-%d''" | "f = ''%m/%d/%Y''"
    by (auto simp add: DATE_FORMATS_def)
  then show ?thesis
  proof cases
    case 1
    with assms(1) show ?thesis by (simp add: DATE_FORMATS_def)
  next
    case 2
    have "strptime s ''%Y-%m-%d'' = None"
    proof (cases "strptime s ''%Y-%m-%d''")
      case None
      then show ?thesis .
    next
      case (Some dt')
      have "CHR ''-'' \<in> set s"
        by (rule strptime_literal [OF Some pattern_date1]) simp_all
      moreover have "CHR ''-'' \<notin> set s"
        by (rule strptime_alphabet [OF assms(1) [unfolded 2] pattern_date2 date_items_no_colon(3)])
      ultimately show ?thesis by simp
    qed
    with assms(1) 2 show ?thesis by (simp add: DATE_FORMATS_def)
  qed
qed

lemma try_datetime_first:
  assumes "List.find (\<lambda>f. strptime s f \<noteq> None) fmts = Some f"
    and "strptime s f = Some dt" and "add_hours_date dt tz = Some d"
  shows "try_datetime tz s fmts = Some (isoformat d)"
  using assms
proof (induction fmts)
  case Nil
  then show ?case by simp
next
  case (Cons g fmts)
  show ?case
  proof (cases "strptime s g")
    case None
    with Cons show ?thesis by simp
  next
    case (Some dt')
    with Cons.prems(1) have "g = f" by simp
    with Cons.prems(2,3) show ?thesis by simp
  qed
qed

section \<open>Properties of the date normalizer\<close>

lemma clock_seconds:
  fixes s :: int
  shows "s div 3600 * 3600 + s mod 3600 div 60 * 60 + s mod 60 = s"
proof -
  have "(60::int) dvd 3600" by simp
  then have "s mod 3600 mod 60 = s mod 60" by (rule mod_mod_cancel)
  then have "s mod 3600 div 60 * 60 + s mod 60 = s mod 3600"
    using div_mult_mod_eq [of "s mod 3600" 60] by simp
  then show ?thesis by (simp add: add.assoc)
qed

lemma shift_whole_days:
  fixes ts k :: int
  shows "ts div 86400 + (ts mod 86400 + k) div 86400 = (ts + k) div 86400"
proof -
  have "ts + k = (ts mod 86400 + k) + 86400 * (ts div 86400)" by simp
  then have "(ts + k) div 86400 = ((ts mod 86400 + k) + 86400 * (ts div 86400)) div 86400"
    by simp
  also have "\<dots> = ts div 86400 + (ts mod 86400 + k) div 86400"
    by (simp only: div_mult_self2)
  finally show ?thesis by simp
qed

text \<open>An epoch timestamp in range: the date of the instant plus the offset.\<close>

lemma epoch_shift:
  assumes "0 < 719163 + ts div 86400" and "719163 + ts div 86400 \<le> MAXORDINAL"
  shows "\<exists>dt. fromtimestamp ts = Some dt
           \<and> shifted_ordinal dt tz = 719163 + (ts + tz * 3600) div 86400"
proof -
  obtain y m d where o: "ord2ymd (719163 + ts div 86400) = (y, m, d)"
    by (cases "ord2ymd (719163 + ts div 86400)")
  let ?secs = "ts mod 86400"
  let ?dt = "\<lparr>year = y, month = m, day = d, hour = ?secs div 3600,
              minute = ?secs mod 3600 div 60, second = ?secs mod 60,
              microsecond = 0, utcoffset = Some 0\<rparr>"
  have f: "fromtimestamp ts = Some ?dt"
    using assms by (simp add: fromtimestamp_def Let_def o)
  have "ymd2ord y m d = 719163 + ts div 86400"
    using ymd2ord_ord2ymd [of "719163 + ts div 86400"] by (simp add: o)
  then have "shifted_ordinal ?dt tz = 719163 + ts div 86400 + (?secs + tz * 3600) div 86400"
    by (simp add: shifted_ordinal_def Let_def clock_seconds)
  also have "\<dots> = 719163 + (ts + tz * 3600) div 86400"
    using shift_whole_days [of ts "tz * 3600"] by simp
  finally show ?thesis using f by blast
qed

lemma epoch_date_value:
  assumes "ts = (if n > 1000000000000 then n div 1000 else n)"
    and "0 < 719163 + ts div 86400" and "719163 + ts div 86400 \<le> MAXORDINAL"
    and "0 < 719163 + (ts + tz * 3600) div 86400"
    and "719163 + (ts + tz * 3600) div 86400 \<le> MAXORDINAL"
  shows "epoch_date tz n = Some (isoformat (ord2ymd (719163 + (ts + tz * 3600) div 86400)))"
proof -
  from epoch_shift [OF assms(2,3), of tz] obtain dt where dt: "fromtimestamp ts = Some dt"
    "shifted_ordinal dt tz = 719163 + (ts + tz * 3600) div 86400" by blast
  have "add_hours_date dt tz = Some (ord2ymd (719163 + (ts + tz * 3600) div 86400))"
    using assms(4,5) by (simp add: add_hours_date_def Let_def dt(2))
  with dt(1) show ?thesis
    by (simp add: epoch_date_def Let_def assms(1) [symmetric])
qed

text \<open>
  Claim C1.  A string that one of the pure-date formats parses normalizes to the date written
  in it, whatever the offset is.  A string whose first matching datetime format parses it
  normalizes to the date of its clock time moved by the offset, and a numeric timestamp to the
  date of its instant moved by the offset, the offset entering once, as whole days carried
  over from the time of day; a float is truncated to an integer first.  (A moved instant
  outside years 1 to 9999 gives no date; the hypotheses exclude it.)  A string that no
  datetime format parses normalizes to the same result under every offset.
\<close>

theorem norm_date_offset_once:
  "(\<forall>f dt. f \<in> set DATE_FORMATS \<and> strptime (strip v) f = Some dt \<longrightarrow>
        norm_date tz (JStr v) = Some (isoformat (year dt, month dt, day dt)))
   \<and> (\<forall>f dt. List.find (\<lambda>g. strptime (strip v) g \<noteq> None) DATETIME_FORMATS = Some f
          \<and> strptime (strip v) f = Some dt
          \<and> 0 < shifted_ordinal dt tz \<and> shifted_ordinal dt tz \<le> MAXORDINAL \<longrightarrow>
        norm_date tz (JStr v) = Some (isoformat (ord2ymd (shifted_ordinal dt tz))))
   \<and> (\<forall>ts. ts = (if n > 1000000000000 then n div 1000 else n)
          \<and> 0 < 719163 + ts div 86400 \<and> 719163 + ts div 86400 \<le> MAXORDINAL
          \<and> 0 < 719163 + (ts + tz * 3600) div 86400
          \<and> 719163 + (ts + tz * 3600) div 86400 \<le> MAXORDINAL \<longrightarrow>
        norm_date tz (JInt n) = Some (isoformat (ord2ymd (719163 + (ts + tz * 3600) div 86400))))
   \<and> norm_date tz (JFloat x) = norm_date tz (JInt (py_trunc x))
   \<and> ((\<forall>g \<in> set DATETIME_FORMATS. strptime (strip v) g = None) \<longrightarrow>
        norm_date tz (JStr v) = norm_date 0 (JStr v))"
proof (intro conjI allI impI)
  fix f dt
  assume "f \<in> set DATE_FORMATS \<and> strptime (strip v) f = Some dt"
  then have f: "f \<in> set DATE_FORMATS" and p: "strptime (strip v) f = Some dt" by simp_all
  show "norm_date tz (JStr v) = Some (isoformat (year dt, month dt, day dt))"
    by (simp add: Let_def pure_date_skips_datetime [OF p f] pure_date_result [OF p f])
next
  fix f dt
  assume a: "List.find (\<lambda>g. strptime (strip v) g \<noteq> None) DATETIME_FORMATS = Some f
          \<and> strptime (strip v) f = Some dt
          \<and> 0 < shifted_ordinal dt tz \<and> shifted_ordinal dt tz \<le> MAXORDINAL"
  then have "add_hours_date dt tz = Some (ord2ymd (shifted_ordinal dt tz))"
    by (simp add: add_hours_date_def Let_def)
  with a have "try_datetime tz (strip v) DATETIME_FORMATS
                 = Some (isoformat (ord2ymd (shifted_ordinal dt tz)))"
    using try_datetime_first by blast
  then show "norm_date tz (JStr v) = Some (isoformat (ord2ymd (shifted_ordinal dt tz)))"
    by (simp add: Let_def)
next
  fix ts
  assume "ts = (if n > 1000000000000 then n div 1000 else n)
          \<and> 0 < 719163 + ts div 86400 \<and> 719163 + ts div 86400 \<le> MAXORDINAL
          \<and> 0 < 719163 + (ts + tz * 3600) div 86400
          \<and> 719163 + (ts + tz * 3600) div 86400 \<le> MAXORDINAL"
  then have "epoch_date tz n = Some (isoformat (ord2ymd (719163 + (ts + tz * 3600) div 86400)))"
    by (intro epoch_date_value) blast+
  then show "norm_date tz (JInt n) = Some (isoformat (ord2ymd (719163 + (ts + tz * 3600) div 86400)))"
    by simp
next
  show "norm_date tz (JFloat x) = norm_date tz (JInt (py_trunc x))" by simp
next
  assume "\<forall>g \<in> set DATETIME_FORMATS. strptime (strip v) g = None"
  then have "try_datetime tz (strip v) DATETIME_FORMATS = None"
    and "try_datetime 0 (strip v) DATETIME_FORMATS = None"
    by (simp_all add: try_datetime_none)
  then show "norm_date tz (JStr v) = norm_date 0 (JStr v)" by (simp add: Let_def)
qed

text \<open>With offset +2: the bare date \<^verbatim>\<open>"2024-03-05"\<close> stays, the datetime
  \<^verbatim>\<open>"2024-03-05T23:30:00Z"\<close> and the timestamp 1709681400 of the same instant move to the
  next day.\<close>

theorem norm_date_offset_once_witness:
  "''%Y-%m-%d'' \<in> set DATE_FORMATS
   \<and> strptime (strip ''2024-03-05'') ''%Y-%m-%d''
       = Some \<lparr>year = 2024, month = 3, day = 5, hour = 0, minute = 0, second = 0,
               microsecond = 0, utcoffset = None\<rparr>
   \<and> norm_date 2 (JStr ''2024-03-05'') = Some ''2024-03-05''
   \<and> List.find (\<lambda>g. strptime (strip ''2024-03-05T23:30:00Z'') g \<noteq> None) DATETIME_FORMATS
       = Some ''%Y-%m-%dT%H:%M:%S%z''
   \<and> strptime (strip ''2024-03-05T23:30:00Z'') ''%Y-%m-%dT%H:%M:%S%z''
       = Some \<lparr>year = 2024, month = 3, day = 5, hour = 23, minute = 30, second = 0,
               microsecond = 0, utcoffset = Some 0\<rparr>
   \<and> norm_date 2 (JStr ''2024-03-05T23:30:00Z'') = Some ''2024-03-06''
   \<and> norm_date 0 (JStr ''2024-03-05T23:30:00Z'') = Some ''2024-03-05''
   \<and> norm_date 2 (JInt 1709681400) = Some ''2024-03-06''
   \<and> norm_date 0 (JInt 1709681400) = Some ''2024-03-05''"
proof -
  let ?d = "\<lparr>year = 2024, month = 3, day = 5, hour = 0, minute = 0, second = 0,
             microsecond = 0, utcoffset = None\<rparr>"
  let ?t = "\<lparr>year = 2024, month = 3, day = 5, hour = 23, minute = 30, second = 0,
             microsecond = 0, utcoffset = Some 0\<rparr>"
  have f1: "''%Y-%m-%d'' \<in> set DATE_FORMATS" by (simp add: DATE_FORMATS_def)
  have p1: "strptime (strip ''2024-03-05'') ''%Y-%m-%d'' = Some ?d" by code_simp
  have i1: "isoformat (year ?d, month ?d, day ?d) = ''2024-03-05''" by code_simp
  have f2: "List.find (\<lambda>g. strptime (strip ''2024-03-05T23:30:00Z'') g \<noteq> None) DATETIME_FORMATS
              = Some ''%Y-%m-%dT%H:%M:%S%z''"
    by code_simp
  have p2: "strptime (strip ''2024-03-05T23:30:00Z'') ''%Y-%m-%dT%H:%M:%S%z'' = Some ?t"
    by code_simp
  have s2: "shifted_ordinal ?t 2 = 738951" "shifted_ordinal ?t 0 = 738950" by code_simp+
  have i2: "isoformat (ord2ymd 738951) = ''2024-03-06''" "isoformat (ord2ymd 738950) = ''2024-03-05''"
    by code_simp+
  have r1: "norm_date 2 (JStr ''2024-03-05'') = Some ''2024-03-05''"
    using norm_date_offset_once [of "''2024-03-05''" 2 0 0, THEN conjunct1] f1 p1 i1 by metis
  note dtc = norm_date_offset_once [THEN conjunct2, THEN conjunct1, rule_format]
  have r2: "norm_date 2 (JStr ''2024-03-05T23:30:00Z'') = Some ''2024-03-06''"
    using dtc [of "''2024-03-05T23:30:00Z''" "''%Y-%m-%dT%H:%M:%S%z''" ?t 2] f2 p2
    by (simp add: s2 i2 MAXORDINAL_def)
  have r3: "norm_date 0 (JStr ''2024-03-05T23:30:00Z'') = Some ''2024-03-05''"
    using dtc [of "''2024-03-05T23:30:00Z''" "''%Y-%m-%dT%H:%M:%S%z''" ?t 0] f2 p2
    by (simp add: s2 i2 MAXORDINAL_def)
  note epc = norm_date_offset_once [THEN conjunct2, THEN conjunct2, THEN conjunct1, rule_format]
  have r4: "norm_date 2 (JInt 1709681400) = Some ''2024-03-06''"
    using epc [of 1709681400 1709681400 2] by (simp add: i2 MAXORDINAL_def)
  have r5: "norm_date 0 (JInt 1709681400) = Some ''2024-03-05''"
    using epc [of 1709681400 1709681400 0] by (simp add: i2 MAXORDINAL_def)
  from f1 p1 r1 f2 p2 r2 r3 r4 r5 show ?thesis by (intro conjI)
qed

end
